theory Spec2Isabelle
  imports Main "HOL-Library.Monad_Syntax"
begin

unbundle bit_operations_syntax

section \<open>Data model\<close>

text \<open>
  The editor is a single C file. Its \<open>int\<close> values are modelled as \<open>int\<close>: every count
  and index below is bounded by the size of the buffers in memory, far from the 32-bit
  limit. A character buffer with a separately stored length (\<open>chars\<close>/\<open>size\<close>,
  \<open>render\<close>/\<open>rsize\<close>, \<open>hl\<close>/\<open>rsize\<close>) is the list of its bytes, so \<open>size\<close> and \<open>rsize\<close>
  are the lengths of \<open>chars\<close> and \<open>render\<close>; the NUL byte the code stores one past the
  end of \<open>chars\<close> and \<open>render\<close> is appended where the code reads it.
\<close>

datatype editorHighlight =
    HL_NORMAL
  | HL_COMMENT
  | HL_MLCOMMENT
  | HL_KEYWORD1
  | HL_KEYWORD2
  | HL_STRING
  | HL_NUMBER
  | HL_MATCH

definition HL_HIGHLIGHT_NUMBERS :: int where
  "HL_HIGHLIGHT_NUMBERS = push_bit 0 1"

definition HL_HIGHLIGHT_STRINGS :: int where
  "HL_HIGHLIGHT_STRINGS = push_bit 1 1"

definition KILO_TAB_STOP :: nat where
  "KILO_TAB_STOP = 8"

text \<open>
  \<open>struct editorSyntax\<close>. The three comment markers are \<open>char *\<close> that may be NULL
  (\<open>None\<close>); the keyword array is the list of its entries before the NULL that ends it.
\<close>

record editorSyntax =
  filetype :: string
  filematch :: "string list"
  keywords' :: "string list"
  singleline_comment_start :: "string option"
  multiline_comment_start :: "string option"
  multiline_comment_end :: "string option"
  flags :: int

record erow =
  idx :: int
  chars :: string
  render :: string
  hl :: "editorHighlight list"
  hl_open_comment :: bool

subsection \<open>C strings\<close>

definition NUL :: char where
  "NUL = CHR 0x00"

text \<open>The string a \<open>char *\<close> denotes: the bytes before the first NUL.\<close>

definition cstr :: "string \<Rightarrow> string" where
  "cstr buf = takeWhile (\<lambda>c. c \<noteq> NUL) buf"

definition strlen :: "string \<Rightarrow> nat" where
  "strlen s = length (cstr s)"

text \<open>\<open>strncmp(a, b, n) == 0\<close>: the first \<open>n\<close> bytes of the two strings agree, a string
  that ends earlier agreeing only with one that ends at the same place.\<close>

definition strncmp0 :: "string \<Rightarrow> string \<Rightarrow> nat \<Rightarrow> bool" where
  "strncmp0 a b n = (take n (cstr a) = take n (cstr b))"

text \<open>\<open>scs ? strlen(scs) : 0\<close>, and the marker itself.\<close>

definition marker_len :: "string option \<Rightarrow> nat" where
  "marker_len m = (case m of None \<Rightarrow> 0 | Some s \<Rightarrow> strlen s)"

definition marker :: "string option \<Rightarrow> string" where
  "marker m = (case m of None \<Rightarrow> [] | Some s \<Rightarrow> s)"

definition isspace :: "char \<Rightarrow> bool" where
  "isspace c = (c = CHR '' '' \<or> c = CHR 0x09 \<or> c = CHR 0x0A \<or> c = CHR 0x0B
                \<or> c = CHR 0x0C \<or> c = CHR 0x0D)"

definition isdigit :: "char \<Rightarrow> bool" where
  "isdigit c = (c \<in> set ''0123456789'')"

text \<open>\<open>strchr(s, c) != NULL\<close> also holds for \<open>c = 0\<close>, which the second disjunct
  of \<open>is_separator\<close> already covers.\<close>

definition is_separator :: "char \<Rightarrow> bool" where
  "is_separator c = (isspace c \<or> c = NUL \<or> c \<in> set '',.()+-/*=~%<>[];'')"

subsection \<open>The highlight scan of one row\<close>

text \<open>\<open>memset(&hl[i], v, n)\<close>. Every call of the scan stays inside the array
  (\<open>length_scan_loop\<close> below), where the result has the length of \<open>hl\<close>.\<close>

definition memset_hl :: "editorHighlight list \<Rightarrow> nat \<Rightarrow> editorHighlight \<Rightarrow> nat \<Rightarrow> editorHighlight list" where
  "memset_hl h i v n = take i h @ replicate n v @ drop (i + n) h"

text \<open>
  The keyword loop \<open>for (j = 0; keywords[j]; j++)\<close> at position \<open>i\<close> of the render
  buffer \<open>buf\<close> (with its NUL): the first entry, in the order of the array, whose text
  stands at \<open>i\<close> and is followed by a separator; the result is its \<open>klen\<close> and \<open>kw2\<close>.
  An entry that ends with \<open>|\<close> is a keyword of the second class, its text the entry
  without the \<open>|\<close>. (An empty entry, where the code reads one byte before the string,
  is taken as first class.)
\<close>

definition kw2_of :: "string \<Rightarrow> bool" where
  "kw2_of kw = (strlen kw \<noteq> 0 \<and> cstr kw ! (strlen kw - 1) = CHR ''|'')"

definition klen_of :: "string \<Rightarrow> nat" where
  "klen_of kw = (if kw2_of kw then strlen kw - 1 else strlen kw)"

fun match_keyword :: "string list \<Rightarrow> string \<Rightarrow> nat \<Rightarrow> (nat \<times> bool) option" where
  "match_keyword [] buf i = None"
| "match_keyword (kw # kws) buf i =
     (if strncmp0 (drop i buf) kw (klen_of kw) \<and> is_separator (buf ! (i + klen_of kw))
      then Some (klen_of kw, kw2_of kw)
      else match_keyword kws buf i)"

text \<open>The variables of the \<open>while\<close> loop of \<open>editorUpdateSyntax\<close>. \<open>in_string\<close> is
  NUL outside a string and the opening quote inside one.\<close>

record scan_state =
  sc_i :: nat
  sc_hl :: "editorHighlight list"
  prev_sep :: bool
  in_string :: char
  in_comment :: bool

datatype loop_ctl = Continue scan_state | Break scan_state

text \<open>
  The body of the loop, entered with \<open>i < rsize\<close>, is a sequence of sections, each
  under its own comment in the code. A section either ends the pass (\<open>continue\<close> or
  \<open>break\<close>) or falls through to the next one (\<open>None\<close>).
\<close>

text \<open>"Handle single-line comments."\<close>

definition scan_sl_comment :: "editorSyntax \<Rightarrow> string \<Rightarrow> scan_state \<Rightarrow> loop_ctl option" where
  "scan_sl_comment syn r s =
     (let i = sc_i s;
          scs = singleline_comment_start syn;
          scs_len = marker_len scs
      in
      if scs_len \<noteq> 0 \<and> in_string s = NUL \<and> \<not> in_comment s
         \<and> strncmp0 (drop i (r @ [NUL])) (marker scs) scs_len
      then Some (Break (s\<lparr>sc_hl := memset_hl (sc_hl s) i HL_COMMENT (length r - i)\<rparr>))
      else None)"

text \<open>"Handle multi-line comments."\<close>

definition scan_ml_comment :: "editorSyntax \<Rightarrow> string \<Rightarrow> scan_state \<Rightarrow> loop_ctl option" where
  "scan_ml_comment syn r s =
     (let i = sc_i s;
          h = sc_hl s;
          mcs = multiline_comment_start syn;
          mce = multiline_comment_end syn;
          mcs_len = marker_len mcs;
          mce_len = marker_len mce
      in
      if mcs_len \<noteq> 0 \<and> mce_len \<noteq> 0 \<and> in_string s = NUL
      then
        (if in_comment s
         then
           (if strncmp0 (drop i (r @ [NUL])) (marker mce) mce_len
            then Some (Continue (s\<lparr>sc_hl := memset_hl (h[i := HL_MLCOMMENT]) i HL_MLCOMMENT mce_len,
                                   sc_i := i + mce_len, in_comment := False, prev_sep := True\<rparr>))
            else Some (Continue (s\<lparr>sc_hl := h[i := HL_MLCOMMENT], sc_i := i + 1\<rparr>)))
         else if strncmp0 (drop i (r @ [NUL])) (marker mcs) mcs_len
         then Some (Continue (s\<lparr>sc_hl := memset_hl h i HL_MLCOMMENT mcs_len,
                                sc_i := i + mcs_len, in_comment := True\<rparr>))
         else None)
      else None)"

text \<open>"Handle string literals with escape sequences."\<close>

definition scan_string :: "editorSyntax \<Rightarrow> string \<Rightarrow> scan_state \<Rightarrow> loop_ctl option" where
  "scan_string syn r s =
     (let i = sc_i s;
          h = sc_hl s;
          c = r ! i
      in
      if flags syn AND HL_HIGHLIGHT_STRINGS \<noteq> 0
      then
        (if in_string s \<noteq> NUL
         then
           (if c = CHR 0x5C \<and> i + 1 < length r
            then Some (Continue (s\<lparr>sc_hl := h[i := HL_STRING, i + 1 := HL_STRING],
                                   sc_i := i + 2\<rparr>))
            else Some (Continue (s\<lparr>sc_hl := h[i := HL_STRING],
                                   in_string := (if c = in_string s then NUL else in_string s),
                                   sc_i := i + 1, prev_sep := True\<rparr>)))
         else if c = CHR 0x22 \<or> c = CHR 0x27
         then Some (Continue (s\<lparr>in_string := c, sc_hl := h[i := HL_STRING], sc_i := i + 1\<rparr>))
         else None)
      else None)"

text \<open>"Handle numeric literals."\<close>

definition scan_number :: "editorSyntax \<Rightarrow> string \<Rightarrow> scan_state \<Rightarrow> loop_ctl option" where
  "scan_number syn r s =
     (let i = sc_i s;
          h = sc_hl s;
          c = r ! i;
          prev_hl = (if i > 0 then h ! (i - 1) else HL_NORMAL)
      in
      if flags syn AND HL_HIGHLIGHT_NUMBERS \<noteq> 0
         \<and> ((isdigit c \<and> (prev_sep s \<or> prev_hl = HL_NUMBER))
              \<or> (c = CHR ''.'' \<and> prev_hl = HL_NUMBER))
      then Some (Continue (s\<lparr>sc_hl := h[i := HL_NUMBER], sc_i := i + 1, prev_sep := False\<rparr>))
      else None)"

text \<open>"Handle keyword highlighting."\<close>

definition scan_keyword :: "editorSyntax \<Rightarrow> string \<Rightarrow> scan_state \<Rightarrow> loop_ctl option" where
  "scan_keyword syn r s =
     (let i = sc_i s
      in
      if prev_sep s
      then
        (case match_keyword (keywords' syn) (r @ [NUL]) i of
           Some (klen, kw2) \<Rightarrow>
             Some (Continue (s\<lparr>sc_hl := memset_hl (sc_hl s) i
                                          (if kw2 then HL_KEYWORD2 else HL_KEYWORD1) klen,
                               sc_i := i + klen, prev_sep := False\<rparr>))
         | None \<Rightarrow> None)
      else None)"

text \<open>The last two lines of the body: \<open>prev_sep = is_separator(c); i++;\<close>\<close>

definition scan_advance :: "string \<Rightarrow> scan_state \<Rightarrow> loop_ctl" where
  "scan_advance r s = Continue (s\<lparr>prev_sep := is_separator (r ! sc_i s), sc_i := sc_i s + 1\<rparr>)"

definition scan_body :: "editorSyntax \<Rightarrow> string \<Rightarrow> scan_state \<Rightarrow> loop_ctl" where
  "scan_body syn r s =
     (case scan_sl_comment syn r s of Some k \<Rightarrow> k | None \<Rightarrow>
     (case scan_ml_comment syn r s of Some k \<Rightarrow> k | None \<Rightarrow>
     (case scan_string syn r s of Some k \<Rightarrow> k | None \<Rightarrow>
     (case scan_number syn r s of Some k \<Rightarrow> k | None \<Rightarrow>
     (case scan_keyword syn r s of Some k \<Rightarrow> k | None \<Rightarrow>
      scan_advance r s)))))"

text \<open>What a pass leaves to do: twice the bytes not yet scanned, plus one while a
  keyword may still be tried at the current position.\<close>

definition scan_measure :: "string \<Rightarrow> scan_state \<Rightarrow> nat" where
  "scan_measure r s = 2 * (length r - sc_i s) + (if prev_sep s then 1 else 0)"

definition scan_progress :: "scan_state \<Rightarrow> scan_state \<Rightarrow> bool" where
  "scan_progress s s' = (sc_i s < sc_i s' \<or> (sc_i s' = sc_i s \<and> prev_sep s \<and> \<not> prev_sep s'))"

function scan_loop :: "editorSyntax \<Rightarrow> string \<Rightarrow> scan_state \<Rightarrow> scan_state" where
  "scan_loop syn r s =
     (if sc_i s < length r
      then (case scan_body syn r s of
              Break s' \<Rightarrow> s'
            | Continue s' \<Rightarrow> scan_loop syn r s')
      else s)"
  by pat_completeness auto
termination
proof (relation "measure (\<lambda>(syn, r, s). scan_measure r s)")
  show "wf (measure (\<lambda>(syn, r, s). scan_measure r s))"
    by simp
next
  fix syn :: editorSyntax and r :: string and s s' :: scan_state
  assume lt: "sc_i s < length r" and body: "scan_body syn r s = Continue s'"
  have p1: "scan_sl_comment syn r s = Some (Continue s') \<Longrightarrow> scan_progress s s'"
    by (simp add: scan_sl_comment_def Let_def split: if_splits)
  have p2: "scan_ml_comment syn r s = Some (Continue s') \<Longrightarrow> scan_progress s s'"
    by (auto simp add: scan_ml_comment_def scan_progress_def Let_def split: if_splits)
  have p3: "scan_string syn r s = Some (Continue s') \<Longrightarrow> scan_progress s s'"
    by (auto simp add: scan_string_def scan_progress_def Let_def split: if_splits)
  have p4: "scan_number syn r s = Some (Continue s') \<Longrightarrow> scan_progress s s'"
    by (auto simp add: scan_number_def scan_progress_def Let_def split: if_splits)
  have p5: "scan_keyword syn r s = Some (Continue s') \<Longrightarrow> scan_progress s s'"
    by (auto simp add: scan_keyword_def scan_progress_def Let_def split: if_splits option.splits)
  have p6: "scan_advance r s = Continue s' \<Longrightarrow> scan_progress s s'"
    by (auto simp add: scan_advance_def scan_progress_def)
  from body have "scan_progress s s'"
    unfolding scan_body_def by (auto split: option.splits dest: p1 p2 p3 p4 p5 p6)
  with lt have "scan_measure r s' < scan_measure r s"
    by (auto simp: scan_measure_def scan_progress_def)
  then show "((syn, r, s'), (syn, r, s)) \<in> measure (\<lambda>(syn, r, s). scan_measure r s)"
    by simp
qed

declare scan_loop.simps [simp del]

subsection \<open>The editor state\<close>

text \<open>
  \<open>struct editorConfig E\<close>, the one global of the program. \<open>row\<close> is the allocated
  array; \<open>numrows\<close> is stored beside it as in the code, which reads it while the array
  already holds one more row (\<open>editorInsertRow\<close>). The time of the status message and
  the terminal settings are left out: nothing below reads them.
\<close>

record editorConfig =
  cx :: int
  cy :: int
  rx :: int
  rowoff :: int
  coloff :: int
  screenrows :: int
  screencols :: int
  numrows :: int
  row :: "erow list"
  dirty :: int
  filename :: "string option"
  statusmsg :: string
  syntax' :: "editorSyntax option"

definition C_HL_extensions :: "string list" where
  "C_HL_extensions = [''.c'', ''.h'', ''.cpp'']"

definition C_HL_keywords :: "string list" where
  "C_HL_keywords =
     [''switch'', ''if'', ''while'', ''for'', ''break'', ''continue'', ''return'', ''else'',
      ''struct'', ''union'', ''typedef'', ''static'', ''enum'', ''class'', ''case'',
      ''int|'', ''long|'', ''double|'', ''float|'', ''char|'', ''unsigned|'', ''signed|'',
      ''void|'']"

definition HLDB :: "editorSyntax list" where
  "HLDB =
     [\<lparr>filetype = ''c'',
       filematch = C_HL_extensions,
       keywords' = C_HL_keywords,
       singleline_comment_start = Some ''//'',
       multiline_comment_start = Some ''/*'',
       multiline_comment_end = Some ''*/'',
       flags = HL_HIGHLIGHT_NUMBERS OR HL_HIGHLIGHT_STRINGS\<rparr>]"

subsection \<open>editorUpdateSyntax\<close>

text \<open>The scan of a render buffer from the start of the loop: \<open>hl\<close> all
  \<open>HL_NORMAL\<close>, \<open>prev_sep = 1\<close>, \<open>in_string = 0\<close> and \<open>in_comment\<close> as seeded.\<close>

definition scan_row :: "editorSyntax \<Rightarrow> string \<Rightarrow> bool \<Rightarrow> scan_state" where
  "scan_row syn r seed =
     scan_loop syn r \<lparr>sc_i = 0, sc_hl = replicate (length r) HL_NORMAL, prev_sep = True,
                      in_string = NUL, in_comment = seed\<rparr>"

text \<open>
  \<open>editorUpdateSyntax(&E.row[p])\<close>, in two parts. \<open>update_syntax_row\<close> is the function
  up to its last statement: it gives the row its new \<open>hl\<close> and \<open>hl_open_comment\<close> and
  returns the condition \<open>changed && row->idx + 1 < E.numrows\<close> of that statement. The
  result is \<open>None\<close> when a row is addressed outside the array.
\<close>

definition update_syntax_row :: "editorConfig \<Rightarrow> nat \<Rightarrow> (editorConfig \<times> bool) option" where
  "update_syntax_row E p =
     (if length (row E) \<le> p then None
      else
        (case syntax' E of
           None \<Rightarrow>
             Some (E\<lparr>row := (row E)[p := (row E ! p)\<lparr>hl := replicate (length (render (row E ! p))) HL_NORMAL\<rparr>]\<rparr>,
                   False)
         | Some syn \<Rightarrow>
             if idx (row E ! p) > 0 \<and> int (length (row E)) < idx (row E ! p) then None
             else
               (let rw = row E ! p;
                    seed = (idx rw > 0 \<and> hl_open_comment (row E ! nat (idx rw - 1)));
                    s = scan_row syn (render rw) seed;
                    changed = (hl_open_comment rw \<noteq> in_comment s);
                    E' = E\<lparr>row := (row E)[p := rw\<lparr>hl := sc_hl s, hl_open_comment := in_comment s\<rparr>]\<rparr>
                in Some (E', changed \<and> idx rw + 1 < numrows E))))"

text \<open>
  The last statement calls the function itself on \<open>&E.row[row->idx + 1]\<close>, where \<open>idx\<close>
  is the field stored in the row, so nothing in the function itself makes the recursion
  end: the result is \<open>None\<close> when it does not.
\<close>

partial_function (option) editorUpdateSyntax :: "editorConfig \<Rightarrow> nat \<Rightarrow> editorConfig option" where
  "editorUpdateSyntax E p =
     (case update_syntax_row E p of
        None \<Rightarrow> None
      | Some (E', again) \<Rightarrow>
          if again then editorUpdateSyntax E' (nat (idx (row E ! p) + 1)) else Some E')"

declare editorUpdateSyntax.simps [code]

subsection \<open>Row operations\<close>

definition TAB :: char where
  "TAB = CHR 0x09"

text \<open>\<open>editorRowCxToRx\<close>: the loop over \<open>chars[0 .. cx)\<close>, for \<open>cx\<close> up to \<open>size\<close>.\<close>

definition cx_to_rx_step :: "int \<Rightarrow> char \<Rightarrow> int" where
  "cx_to_rx_step r c =
     (if c = TAB then r + (int KILO_TAB_STOP - 1) - (r mod int KILO_TAB_STOP) else r) + 1"

definition editorRowCxToRx :: "erow \<Rightarrow> int \<Rightarrow> int" where
  "editorRowCxToRx rw x = foldl cx_to_rx_step 0 (take (nat x) (chars rw))"

text \<open>\<open>editorRowRxToCx\<close>: the loop over the chars that are left, with the running
  \<open>cur_rx\<close> and \<open>cx\<close>; it returns from inside the loop once \<open>cur_rx > rx\<close>.\<close>

fun rx_to_cx_loop :: "string \<Rightarrow> int \<Rightarrow> int \<Rightarrow> int \<Rightarrow> int" where
  "rx_to_cx_loop [] r cur_rx x = x"
| "rx_to_cx_loop (c # cs) r cur_rx x =
     (if cx_to_rx_step cur_rx c > r then x else rx_to_cx_loop cs r (cx_to_rx_step cur_rx c) (x + 1))"

definition editorRowRxToCx :: "erow \<Rightarrow> int \<Rightarrow> int" where
  "editorRowRxToCx rw r = rx_to_cx_loop (chars rw) r 0 0"

text \<open>\<open>editorUpdateRow\<close>: the second loop fills \<open>render\<close> (the first only counts the
  tabs for \<open>malloc\<close>); \<open>tab_fill\<close> is its inner \<open>while (idx % KILO_TAB_STOP != 0)\<close>.\<close>

function tab_fill :: "string \<Rightarrow> string" where
  "tab_fill rb = (if length rb mod KILO_TAB_STOP \<noteq> 0 then tab_fill (rb @ '' '') else rb)"
  by pat_completeness auto
termination
proof (relation "measure (\<lambda>rb. (KILO_TAB_STOP - length rb mod KILO_TAB_STOP) mod KILO_TAB_STOP)")
  show "wf (measure (\<lambda>rb. (KILO_TAB_STOP - length rb mod KILO_TAB_STOP) mod KILO_TAB_STOP))"
    by simp
next
  fix rb :: string
  assume "length rb mod KILO_TAB_STOP \<noteq> 0"
  then have "(8 - Suc (length rb) mod 8) mod 8 < (8 - length rb mod 8) mod (8::nat)"
    by (auto simp: KILO_TAB_STOP_def mod_Suc)
  then show "(rb @ '' '', rb)
      \<in> measure (\<lambda>rb. (KILO_TAB_STOP - length rb mod KILO_TAB_STOP) mod KILO_TAB_STOP)"
    by (simp add: KILO_TAB_STOP_def)
qed

declare tab_fill.simps [simp del]

fun render_loop :: "string \<Rightarrow> string \<Rightarrow> string" where
  "render_loop [] rb = rb"
| "render_loop (c # cs) rb =
     (if c = TAB then render_loop cs (tab_fill (rb @ '' '')) else render_loop cs (rb @ [c]))"

definition editorUpdateRow :: "editorConfig \<Rightarrow> nat \<Rightarrow> editorConfig option" where
  "editorUpdateRow E p =
     (if length (row E) \<le> p then None
      else editorUpdateSyntax
             (E\<lparr>row := (row E)[p := (row E ! p)\<lparr>render := render_loop (chars (row E ! p)) []\<rparr>]\<rparr>) p)"

text \<open>\<open>editorInsertRow(at, s, len)\<close>, \<open>s\<close> being the \<open>len\<close> bytes copied. The rows from
  \<open>at\<close> on move up by one with their \<open>idx\<close> incremented; \<open>numrows\<close> is incremented only
  after \<open>editorUpdateRow\<close> has run.\<close>

definition editorInsertRow :: "editorConfig \<Rightarrow> int \<Rightarrow> string \<Rightarrow> editorConfig option" where
  "editorInsertRow E at s =
     (if at < 0 \<or> at > numrows E then Some E
      else do {
        let new = \<lparr>idx = at, chars = s, render = [], hl = [], hl_open_comment = False\<rparr>;
        let rows = take (nat at) (row E) @ [new]
                   @ map (\<lambda>rw. rw\<lparr>idx := idx rw + 1\<rparr>) (drop (nat at) (row E));
        E1 \<leftarrow> editorUpdateRow (E\<lparr>row := rows\<rparr>) (nat at);
        Some (E1\<lparr>numrows := numrows E1 + 1, dirty := dirty E1 + 1\<rparr>)
      })"

definition editorDelRow :: "editorConfig \<Rightarrow> int \<Rightarrow> editorConfig" where
  "editorDelRow E at =
     (if at < 0 \<or> at \<ge> numrows E then E
      else E\<lparr>row := take (nat at) (row E)
                     @ map (\<lambda>rw. rw\<lparr>idx := idx rw - 1\<rparr>) (drop (nat at + 1) (row E)),
             numrows := numrows E - 1,
             dirty := dirty E + 1\<rparr>)"

text \<open>The row operations take the row as \<open>&E.row[p]\<close>.\<close>

definition editorRowInsertChar :: "editorConfig \<Rightarrow> nat \<Rightarrow> int \<Rightarrow> char \<Rightarrow> editorConfig option" where
  "editorRowInsertChar E p at c =
     (if length (row E) \<le> p then None
      else do {
        let rw = row E ! p;
        let at' = (if at < 0 \<or> at > int (length (chars rw)) then int (length (chars rw)) else at);
        let rw' = rw\<lparr>chars := take (nat at') (chars rw) @ [c] @ drop (nat at') (chars rw)\<rparr>;
        E1 \<leftarrow> editorUpdateRow (E\<lparr>row := (row E)[p := rw']\<rparr>) p;
        Some (E1\<lparr>dirty := dirty E1 + 1\<rparr>)
      })"

definition editorRowAppendString :: "editorConfig \<Rightarrow> nat \<Rightarrow> string \<Rightarrow> editorConfig option" where
  "editorRowAppendString E p s =
     (if length (row E) \<le> p then None
      else do {
        let rw = row E ! p;
        E1 \<leftarrow> editorUpdateRow (E\<lparr>row := (row E)[p := rw\<lparr>chars := chars rw @ s\<rparr>]\<rparr>) p;
        Some (E1\<lparr>dirty := dirty E1 + 1\<rparr>)
      })"

definition editorRowDelChar :: "editorConfig \<Rightarrow> nat \<Rightarrow> int \<Rightarrow> editorConfig option" where
  "editorRowDelChar E p at =
     (if length (row E) \<le> p then None
      else if at < 0 \<or> at \<ge> int (length (chars (row E ! p))) then Some E
      else do {
        let rw = row E ! p;
        let rw' = rw\<lparr>chars := take (nat at) (chars rw) @ drop (nat at + 1) (chars rw)\<rparr>;
        E1 \<leftarrow> editorUpdateRow (E\<lparr>row := (row E)[p := rw']\<rparr>) p;
        Some (E1\<lparr>dirty := dirty E1 + 1\<rparr>)
      })"

subsection \<open>Editor operations\<close>

definition editorInsertChar :: "editorConfig \<Rightarrow> char \<Rightarrow> editorConfig option" where
  "editorInsertChar E c = do {
     E1 \<leftarrow> (if cy E = numrows E then editorInsertRow E (numrows E) [] else Some E);
     E2 \<leftarrow> (if cy E1 < 0 then None else editorRowInsertChar E1 (nat (cy E1)) (cx E1) c);
     Some (E2\<lparr>cx := cx E2 + 1\<rparr>)
   }"

text \<open>\<open>editorInsertNewline\<close>. In the second branch \<open>&row->chars[E.cx]\<close> and
  \<open>row->size - E.cx\<close> are the bytes of the row from \<open>cx\<close> on; they exist for
  \<open>0 \<le> cx \<le> size\<close> of a row of the array.\<close>

definition editorInsertNewline :: "editorConfig \<Rightarrow> editorConfig option" where
  "editorInsertNewline E = do {
     E1 \<leftarrow>
       (if cx E = 0 then editorInsertRow E (cy E) []
        else if cy E < 0 \<or> int (length (row E)) \<le> cy E
                \<or> cx E < 0 \<or> int (length (chars (row E ! nat (cy E)))) < cx E then None
        else do {
          E2 \<leftarrow> editorInsertRow E (cy E + 1) (drop (nat (cx E)) (chars (row E ! nat (cy E))));
          let rw = row E2 ! nat (cy E2);
          editorUpdateRow (E2\<lparr>row := (row E2)[nat (cy E2) := rw\<lparr>chars := take (nat (cx E2)) (chars rw)\<rparr>]\<rparr>)
                          (nat (cy E2))
        });
     Some (E1\<lparr>cy := cy E1 + 1, cx := 0\<rparr>)
   }"

definition editorDelChar :: "editorConfig \<Rightarrow> editorConfig option" where
  "editorDelChar E =
     (if cy E = numrows E then Some E
      else if cx E = 0 \<and> cy E = 0 then Some E
      else if cy E < 0 \<or> int (length (row E)) \<le> cy E then None
      else if cx E > 0 then do {
        E1 \<leftarrow> editorRowDelChar E (nat (cy E)) (cx E - 1);
        Some (E1\<lparr>cx := cx E1 - 1\<rparr>)
      }
      else if cy E - 1 < 0 then None
      else do {
        let rw = row E ! nat (cy E);
        let E1 = E\<lparr>cx := int (length (chars (row E ! nat (cy E - 1))))\<rparr>;
        E2 \<leftarrow> editorRowAppendString E1 (nat (cy E1 - 1)) (chars rw);
        let E3 = editorDelRow E2 (cy E2);
        Some (E3\<lparr>cy := cy E3 - 1\<rparr>)
      })"

subsection \<open>Syntax selection\<close>

text \<open>\<open>strstr(hay, needle)\<close> as the offset of the first occurrence of the needle in
  the haystack (both C strings), \<open>None\<close> for NULL.\<close>

fun strstr_from :: "string \<Rightarrow> string \<Rightarrow> nat \<Rightarrow> nat option" where
  "strstr_from [] needle k = (if needle = [] then Some k else None)"
| "strstr_from (h # hs) needle k =
     (if take (length needle) (h # hs) = needle then Some k else strstr_from hs needle (k + 1))"

definition strstr :: "string \<Rightarrow> string \<Rightarrow> nat option" where
  "strstr hay needle = strstr_from (cstr hay) (cstr needle) 0"

text \<open>The inner \<open>while (s->filematch[i])\<close> of \<open>editorSelectSyntaxHighlight\<close>: whether
  an entry of \<open>filematch\<close> selects the file name.\<close>

fun filematch_any :: "string \<Rightarrow> string list \<Rightarrow> bool" where
  "filematch_any fname [] = False"
| "filematch_any fname (pat # pats) =
     (case strstr fname pat of
        Some off \<Rightarrow>
          if (cstr pat @ [NUL]) ! 0 \<noteq> CHR ''.'' \<or> off + strlen pat = strlen fname then True
          else filematch_any fname pats
      | None \<Rightarrow> filematch_any fname pats)"

text \<open>\<open>for (filerow = 0; filerow < E.numrows; filerow++) editorUpdateSyntax(&E.row[filerow])\<close>,
  as the rows still to do.\<close>

fun update_all_rows :: "editorConfig \<Rightarrow> nat list \<Rightarrow> editorConfig option" where
  "update_all_rows E [] = Some E"
| "update_all_rows E (filerow # rest) = do {
     E1 \<leftarrow> editorUpdateSyntax E filerow;
     update_all_rows E1 rest
   }"

fun select_from :: "editorConfig \<Rightarrow> string \<Rightarrow> editorSyntax list \<Rightarrow> editorConfig option" where
  "select_from E fname [] = Some E"
| "select_from E fname (s # db) =
     (if filematch_any fname (filematch s)
      then update_all_rows (E\<lparr>syntax' := Some s\<rparr>) [0 ..< nat (numrows E)]
      else select_from E fname db)"

definition editorSelectSyntaxHighlight :: "editorConfig \<Rightarrow> editorConfig option" where
  "editorSelectSyntaxHighlight E =
     (case filename E of
        None \<Rightarrow> Some (E\<lparr>syntax' := None\<rparr>)
      | Some fname \<Rightarrow> select_from (E\<lparr>syntax' := None\<rparr>) fname HLDB)"

subsection \<open>File i/o\<close>

definition LF :: char where
  "LF = CHR 0x0A"

definition CR :: char where
  "CR = CHR 0x0D"

text \<open>\<open>editorRowsToString\<close>: the first loop adds up \<open>totlen\<close>, the second fills the
  buffer; the result is the buffer and \<open>*buflen\<close>.\<close>

definition editorRowsToString :: "editorConfig \<Rightarrow> string \<times> int" where
  "editorRowsToString E =
     (let rows = take (nat (numrows E)) (row E);
          totlen = foldl (\<lambda>n rw. n + (int (length (chars rw)) + 1)) 0 rows;
          buf = foldl (\<lambda>b rw. b @ chars rw @ [LF]) [] rows
      in (buf, totlen))"

text \<open>The lines \<open>getline\<close> returns for the content of a file, one after the other: each
  with the newline that ends it, the last one without when the file does not end in one.\<close>

fun getlines :: "string \<Rightarrow> string \<Rightarrow> string list" where
  "getlines cur [] = (if cur = [] then [] else [cur])"
| "getlines cur (c # cs) =
     (if c = LF then (cur @ [c]) # getlines [] cs else getlines (cur @ [c]) cs)"

text \<open>\<open>while (linelen > 0 && (line[linelen - 1] == '\n' || line[linelen - 1] == '\r')) linelen--;\<close>
  on the reversed line.\<close>

fun strip_rev :: "string \<Rightarrow> string" where
  "strip_rev [] = []"
| "strip_rev (c # cs) = (if c = LF \<or> c = CR then strip_rev cs else c # cs)"

definition strip_eol :: "string \<Rightarrow> string" where
  "strip_eol line = rev (strip_rev (rev line))"

datatype 'a result = Die string | Ret 'a

fun open_loop :: "editorConfig \<Rightarrow> string list \<Rightarrow> editorConfig option" where
  "open_loop E [] = Some E"
| "open_loop E (line # rest) = do {
     E1 \<leftarrow> editorInsertRow E (numrows E) (strip_eol line);
     open_loop E1 rest
   }"

text \<open>\<open>editorOpen(filename)\<close>; \<open>file\<close> is the content of the file, \<open>None\<close> when
  \<open>fopen\<close> fails and the program ends in \<open>die\<close>.\<close>

definition editorOpen :: "editorConfig \<Rightarrow> string \<Rightarrow> string option \<Rightarrow> editorConfig result option" where
  "editorOpen E fname file = do {
     E1 \<leftarrow> editorSelectSyntaxHighlight (E\<lparr>filename := Some (cstr fname)\<rparr>);
     (case file of
        None \<Rightarrow> Some (Die ''fopen'')
      | Some content \<Rightarrow> do {
          E2 \<leftarrow> open_loop E1 (getlines [] content);
          Some (Ret (E2\<lparr>dirty := 0\<rparr>))
        })
   }"

subsection \<open>Status message, screen and prompt\<close>

text \<open>\<open>editorSetStatusMessage\<close> with the message already formatted: \<open>vsnprintf\<close> keeps
  what fits the 80 bytes of \<open>E.statusmsg\<close> with its NUL.\<close>

definition editorSetStatusMessage :: "editorConfig \<Rightarrow> string \<Rightarrow> editorConfig" where
  "editorSetStatusMessage E msg = E\<lparr>statusmsg := take 79 (cstr msg)\<rparr>"

definition editorScroll :: "editorConfig \<Rightarrow> editorConfig" where
  "editorScroll E =
     (let E1 = E\<lparr>rx := 0\<rparr>;
          E2 = (if cy E1 < numrows E1 then E1\<lparr>rx := editorRowCxToRx (row E1 ! nat (cy E1)) (cx E1)\<rparr> else E1);
          E3 = (if cy E2 < rowoff E2 then E2\<lparr>rowoff := cy E2\<rparr> else E2);
          E4 = (if cy E3 \<ge> rowoff E3 + screenrows E3 then E3\<lparr>rowoff := cy E3 - screenrows E3 + 1\<rparr> else E3);
          E5 = (if rx E4 < coloff E4 then E4\<lparr>coloff := rx E4\<rparr> else E4);
          E6 = (if rx E5 \<ge> coloff E5 + screencols E5 then E5\<lparr>coloff := rx E5 - screencols E5 + 1\<rparr> else E5)
      in E6)"

text \<open>\<open>editorRefreshScreen\<close> changes \<open>E\<close> through \<open>editorScroll\<close> only; the bytes it
  writes to the terminal are not modelled.\<close>

definition editorRefreshScreen :: "editorConfig \<Rightarrow> editorConfig" where
  "editorRefreshScreen E = editorScroll E"

definition BACKSPACE :: int where "BACKSPACE = 127"
definition ARROW_LEFT :: int where "ARROW_LEFT = 1000"
definition ARROW_RIGHT :: int where "ARROW_RIGHT = 1001"
definition ARROW_UP :: int where "ARROW_UP = 1002"
definition ARROW_DOWN :: int where "ARROW_DOWN = 1003"
definition DEL_KEY :: int where "DEL_KEY = 1004"

definition CTRL_KEY :: "char \<Rightarrow> int" where
  "CTRL_KEY k = int (of_char k) AND 0x1f"

definition iscntrl :: "int \<Rightarrow> bool" where
  "iscntrl c = ((0 \<le> c \<and> c < 32) \<or> c = 127)"

text \<open>
  \<open>editorPrompt(prompt, callback)\<close>. \<open>fmt\<close> formats the prompt with the buffer, \<open>keys\<close>
  are the keys \<open>editorReadKey\<close> returns from now on; when they run out the program waits
  for a key for ever (\<open>None\<close>). The callback works on the editor and on the static
  variables it owns (\<open>'st\<close>). The result is the string returned (\<open>None\<close> for NULL), the
  state and the keys left.
\<close>

fun editorPrompt ::
  "(string \<Rightarrow> string) \<Rightarrow> (string \<Rightarrow> int \<Rightarrow> 'st \<times> editorConfig \<Rightarrow> 'st \<times> editorConfig) option
   \<Rightarrow> string \<Rightarrow> 'st \<times> editorConfig \<Rightarrow> int list
   \<Rightarrow> (string option \<times> ('st \<times> editorConfig) \<times> int list) option" where
  "editorPrompt fmt callback buf (st, E) [] = None"
| "editorPrompt fmt callback buf (st, E) (c # keys) =
     (let E1 = editorRefreshScreen (editorSetStatusMessage E (fmt buf));
          call = (\<lambda>b se. case callback of None \<Rightarrow> se | Some f \<Rightarrow> f b c se)
      in
      if c = DEL_KEY \<or> c = CTRL_KEY (CHR ''h'') \<or> c = BACKSPACE
      then (let buf' = (if buf \<noteq> [] then butlast buf else buf)
            in editorPrompt fmt callback buf' (call buf' (st, E1)) keys)
      else if c = 27
      then Some (None, call buf (st, editorSetStatusMessage E1 []), keys)
      else if c = 13
      then
        (if buf \<noteq> []
         then Some (Some buf, call buf (st, editorSetStatusMessage E1 []), keys)
         else editorPrompt fmt callback buf (call buf (st, E1)) keys)
      else if \<not> iscntrl c \<and> c < 128
      then editorPrompt fmt callback (buf @ [char_of c]) (call (buf @ [char_of c]) (st, E1)) keys
      else editorPrompt fmt callback buf (call buf (st, E1)) keys)"

subsection \<open>Save\<close>

text \<open>\<open>printf\<close>'s \<open>%d\<close>.\<close>

fun show_nat :: "nat \<Rightarrow> string" where
  "show_nat n = (if n < 10 then [char_of (48 + n)] else show_nat (n div 10) @ [char_of (48 + n mod 10)])"

declare show_nat.simps [simp del]

definition show_int :: "int \<Rightarrow> string" where
  "show_int k = (if k < 0 then CHR ''-'' # show_nat (nat (- k)) else show_nat (nat k))"

text \<open>What the system calls of \<open>editorSave\<close> return: whether \<open>open\<close> gives a
  descriptor, whether \<open>ftruncate\<close> succeeds, the count \<open>write\<close> returns, and the text
  of \<open>strerror(errno)\<close> afterwards.\<close>

record save_io =
  open_ok :: bool
  ftruncate_ok :: bool
  write_ret :: int
  strerror_errno :: string

text \<open>
  \<open>editorSave\<close>. The result holds the editor, the buffer and length handed to
  \<open>write\<close> (\<open>None\<close> when \<open>write\<close> is not reached) and the keys left.
\<close>

definition editorSave ::
  "save_io \<Rightarrow> editorConfig \<Rightarrow> int list \<Rightarrow> (editorConfig \<times> (string \<times> int) option \<times> int list) option" where
  "editorSave io E keys = do {
     (named, E1, keys1) \<leftarrow>
       (case filename E of
          Some f \<Rightarrow> Some (True, E, keys)
        | None \<Rightarrow> do {
            (answer, (u, E2), keys2) \<leftarrow>
              editorPrompt (\<lambda>b. ''Save as: '' @ b @ '' (ESC to cancel)'') None [] ((), E) keys;
            (case answer of
               None \<Rightarrow> Some (False, editorSetStatusMessage (E2\<lparr>filename := None\<rparr>) ''Save aborted'', keys2)
             | Some f \<Rightarrow> do {
                 E3 \<leftarrow> editorSelectSyntaxHighlight (E2\<lparr>filename := Some f\<rparr>);
                 Some (True, E3, keys2)
               })
          });
     (if \<not> named then Some (E1, None, keys1)
      else
        (let (buf, len) = editorRowsToString E1 in
         if open_ok io \<and> ftruncate_ok io \<and> write_ret io = len
         then Some (editorSetStatusMessage (E1\<lparr>dirty := 0\<rparr>) (show_int len @ '' bytes written to disk''),
                    Some (buf, len), keys1)
         else Some (editorSetStatusMessage E1 (''Can't save! I/O error: '' @ strerror_errno io),
                    (if open_ok io \<and> ftruncate_ok io then Some (buf, len) else None), keys1)))
   }"

subsection \<open>Find\<close>

text \<open>The static variables of \<open>editorFindCallback\<close>; \<open>saved_hl\<close> is \<open>None\<close> for NULL.\<close>

record find_static =
  last_match :: int
  direction :: int
  saved_hl_line :: int
  saved_hl :: "editorHighlight list option"

definition find_static_init :: find_static where
  "find_static_init = \<lparr>last_match = - 1, direction = 1, saved_hl_line = 0, saved_hl = None\<rparr>"

text \<open>The \<open>for\<close> loop of the callback with \<open>n\<close> passes left: the row where the query is
  found and the offset of the match in its \<open>render\<close>, or \<open>None\<close> when the loop ends
  without a match.\<close>

fun find_loop :: "editorConfig \<Rightarrow> string \<Rightarrow> int \<Rightarrow> int \<Rightarrow> nat \<Rightarrow> (int \<times> nat) option" where
  "find_loop E query dir current 0 = None"
| "find_loop E query dir current (Suc n) =
     (let c1 = current + dir;
          c2 = (if c1 = - 1 then numrows E - 1 else if c1 = numrows E then 0 else c1)
      in
      case strstr (render (row E ! nat c2)) query of
        Some off \<Rightarrow> Some (c2, off)
      | None \<Rightarrow> find_loop E query dir c2 n)"

text \<open>The callback, first part: "If there is saved syntax highlighting, restore it",
  the \<open>memcpy\<close> of \<open>rsize\<close> bytes into the \<open>hl\<close> of the saved line.\<close>

definition find_restore :: "find_static \<Rightarrow> editorConfig \<Rightarrow> editorConfig" where
  "find_restore st E =
     (case saved_hl st of
        None \<Rightarrow> E
      | Some sv \<Rightarrow>
          (let l = nat (saved_hl_line st);
               rw = row E ! l;
               n = length (render rw)
           in E\<lparr>row := (row E)[l := rw\<lparr>hl := take n sv @ drop n (hl rw)\<rparr>]\<rparr>))"

text \<open>The keys other than Enter and Escape: the arrows set the direction, any other key
  starts over; then \<open>if (last_match == -1) direction = 1\<close>.\<close>

definition find_key :: "find_static \<Rightarrow> int \<Rightarrow> find_static" where
  "find_key st key =
     (let st2 = (if key = ARROW_RIGHT \<or> key = ARROW_DOWN then st\<lparr>direction := 1\<rparr>
                 else if key = ARROW_LEFT \<or> key = ARROW_UP then st\<lparr>direction := - 1\<rparr>
                 else st\<lparr>last_match := - 1, direction := 1\<rparr>)
      in if last_match st2 = - 1 then st2\<lparr>direction := 1\<rparr> else st2)"

definition editorFindCallback :: "string \<Rightarrow> int \<Rightarrow> find_static \<times> editorConfig \<Rightarrow> find_static \<times> editorConfig" where
  "editorFindCallback query key se =
     (let E1 = find_restore (fst se) (snd se);
          st1 = (fst se)\<lparr>saved_hl := None\<rparr>
      in
      if key = 13 \<or> key = 27
      then (st1\<lparr>last_match := - 1, direction := 1\<rparr>, E1)
      else
        (let st3 = find_key st1 key
         in
         case find_loop E1 query (direction st3) (last_match st3) (nat (numrows E1)) of
           None \<Rightarrow> (st3, E1)
         | Some (current, off) \<Rightarrow>
             (let rw = row E1 ! nat current
              in (st3\<lparr>last_match := current, saved_hl_line := current,
                      saved_hl := Some (take (length (render rw)) (hl rw))\<rparr>,
                  E1\<lparr>cy := current,
                      cx := editorRowRxToCx rw (int off),
                      rowoff := numrows E1,
                      row := (row E1)[nat current := rw\<lparr>hl := memset_hl (hl rw) off HL_MATCH (strlen query)\<rparr>]\<rparr>))))"

section \<open>Invariants of the row array\<close>

text \<open>Every row stores its own position: \<open>E.row[j].idx == j\<close>.\<close>

definition idx_ok :: "erow list \<Rightarrow> bool" where
  "idx_ok rows = (map idx rows = map int [0 ..< length rows])"

text \<open>The part of a row that highlighting does not touch.\<close>

definition erow_text :: "erow \<Rightarrow> int \<times> string \<times> string" where
  "erow_text rw = (idx rw, chars rw, render rw)"

text \<open>A document between two operations: the positions are stored in the rows and
  \<open>numrows\<close> counts the rows of the array.\<close>

definition wf_doc :: "editorConfig \<Rightarrow> bool" where
  "wf_doc E = (idx_ok (row E) \<and> numrows E = int (length (row E)))"

section \<open>Compositions the claims speak of, and example documents\<close>

definition row_chars :: "editorConfig \<Rightarrow> string list" where
  "row_chars E = map chars (row E)"

text \<open>Insert a character into row \<open>p\<close> at \<open>at\<close>, then delete at \<open>at\<close>.\<close>

definition insert_then_delete :: "editorConfig \<Rightarrow> nat \<Rightarrow> int \<Rightarrow> char \<Rightarrow> editorConfig option" where
  "insert_then_delete E p at c = do {
     E1 \<leftarrow> editorRowInsertChar E p at c;
     editorRowDelChar E1 p at
   }"

text \<open>Enter at the cursor, then backspace at the start of the new row.\<close>

definition split_then_join :: "editorConfig \<Rightarrow> editorConfig option" where
  "split_then_join E = do {
     E1 \<leftarrow> editorInsertNewline E;
     editorDelChar E1
   }"

text \<open>\<open>initEditor\<close> for a window of the given size.\<close>

definition initEditor :: "int \<Rightarrow> int \<Rightarrow> editorConfig" where
  "initEditor wrows wcols =
     \<lparr>cx = 0, cy = 0, rx = 0, rowoff = 0, coloff = 0,
      screenrows = wrows - 2, screencols = wcols,
      numrows = 0, row = [], dirty = 0, filename = None, statusmsg = [], syntax' = None\<rparr>"

text \<open>A document with the given lines and no syntax descriptor, as it stands after the
  lines were loaded from a file whose name selects none.\<close>

definition plain_row :: "nat \<Rightarrow> string \<Rightarrow> erow" where
  "plain_row j s =
     \<lparr>idx = int j, chars = s, render = render_loop s [],
      hl = replicate (length (render_loop s [])) HL_NORMAL, hl_open_comment = False\<rparr>"

definition plain_doc :: "string list \<Rightarrow> editorConfig" where
  "plain_doc ls =
     (initEditor 24 80)\<lparr>row := map (\<lambda>j. plain_row j (ls ! j)) [0 ..< length ls],
                         numrows := int (length ls)\<rparr>"

text \<open>A modified one-line document with a file name, and a save whose \<open>open\<close> fails.\<close>

definition named_doc :: editorConfig where
  "named_doc = (plain_doc [''x''])\<lparr>filename := Some ''f.txt'', dirty := 3\<rparr>"

definition open_fails :: save_io where
  "open_fails = \<lparr>open_ok = False, ftruncate_ok = False, write_ret = - 1,
                 strerror_errno = ''Permission denied''\<rparr>"

text \<open>
  The search as the specification words it. \<open>spec_visit_order n lm dir\<close> is the order
  in which a search step visits the \<open>n\<close> rows: from the last match (\<open>- 1\<close> for none), one
  row at a time in the direction, cyclically. \<open>spec_first_match\<close> selects the first row
  of an order whose render contains the query, with the offset of the match.
\<close>

definition spec_visit_order :: "int \<Rightarrow> int \<Rightarrow> int \<Rightarrow> int list" where
  "spec_visit_order n lm dir = map (\<lambda>k. (lm + dir * (int k + 1)) mod n) [0 ..< nat n]"

fun spec_first_match :: "string list \<Rightarrow> string \<Rightarrow> int list \<Rightarrow> (int \<times> nat) option" where
  "spec_first_match renders query [] = None"
| "spec_first_match renders query (c # cs) =
     (case strstr (renders ! nat c) query of
        Some off \<Rightarrow> Some (c, off)
      | None \<Rightarrow> spec_first_match renders query cs)"

text \<open>The last match and the direction a search step works with, after the key.\<close>

definition step_last :: "find_static \<Rightarrow> int \<Rightarrow> int" where
  "step_last st key =
     (if key = ARROW_RIGHT \<or> key = ARROW_DOWN \<or> key = ARROW_LEFT \<or> key = ARROW_UP
      then last_match st else - 1)"

definition step_dir :: "find_static \<Rightarrow> int \<Rightarrow> int" where
  "step_dir st key =
     (if (key = ARROW_LEFT \<or> key = ARROW_UP) \<and> last_match st \<noteq> - 1 then - 1 else 1)"

definition foo_doc :: editorConfig where
  "foo_doc = plain_doc [''foo'', ''bar foo'', ''baz'']"

text \<open>A document whose first row holds a NUL byte before \<open>foo\<close>, as a file with such
  a line loads.\<close>

definition nul_doc :: editorConfig where
  "nul_doc = plain_doc [[CHR ''a'', NUL, CHR ''f'', CHR ''o'', CHR ''o''], ''foo'']"

text \<open>The static variables after a match on row 1 in forward direction.\<close>

definition after_row1 :: find_static where
  "after_row1 = \<lparr>last_match = 1, direction = 1, saved_hl_line = 1,
                  saved_hl = Some (replicate 7 HL_NORMAL)\<rparr>"

section \<open>Notions for the claims about the scan\<close>

text \<open>The text of a keyword entry: the entry without the \<open>|\<close> that tags the second
  class.\<close>

definition kw_text :: "string \<Rightarrow> string" where
  "kw_text kw = take (klen_of kw) (cstr kw)"

definition kw_class :: "string \<Rightarrow> editorHighlight" where
  "kw_class kw = (if kw2_of kw then HL_KEYWORD2 else HL_KEYWORD1)"

text \<open>The test of the keyword loop for one entry, at position \<open>i\<close> of the render buffer
  \<open>buf\<close> (with its NUL).\<close>

definition kw_matches :: "string \<Rightarrow> nat \<Rightarrow> string \<Rightarrow> bool" where
  "kw_matches buf i kw =
     (strncmp0 (drop i buf) kw (klen_of kw) \<and> is_separator (buf ! (i + klen_of kw)))"

text \<open>The text \<open>t\<close> stands at position \<open>i\<close> of the row \<open>r\<close>.\<close>

definition text_at :: "string \<Rightarrow> nat \<Rightarrow> string \<Rightarrow> bool" where
  "text_at r i t = (i + length t \<le> length r \<and> take (length t) (drop i r) = t)"

text \<open>The state in which \<open>editorUpdateSyntax\<close> enters the loop, and the states the loop
  goes through from a state on.\<close>

definition scan_init :: "string \<Rightarrow> bool \<Rightarrow> scan_state" where
  "scan_init r seed =
     \<lparr>sc_i = 0, sc_hl = replicate (length r) HL_NORMAL, prev_sep = True,
      in_string = NUL, in_comment = seed\<rparr>"

inductive scan_reach :: "editorSyntax \<Rightarrow> string \<Rightarrow> scan_state \<Rightarrow> scan_state \<Rightarrow> bool"
  for syn :: editorSyntax and r :: string and s :: scan_state where
  start: "scan_reach syn r s s"
| pass: "scan_reach syn r s t \<Longrightarrow> sc_i t < length r \<Longrightarrow> scan_body syn r t = Continue u
         \<Longrightarrow> scan_reach syn r s u"

text \<open>The scan is at the keyword section: no earlier section of the body takes the
  pass, and \<open>prev_sep\<close> is set.\<close>

definition at_keyword_step :: "editorSyntax \<Rightarrow> string \<Rightarrow> scan_state \<Rightarrow> bool" where
  "at_keyword_step syn r s =
     (sc_i s < length r \<and> scan_sl_comment syn r s = None \<and> scan_ml_comment syn r s = None
      \<and> scan_string syn r s = None \<and> scan_number syn r s = None \<and> prev_sep s)"

text \<open>The specification's keyword: the longest entry among those that match.\<close>

definition spec_longest_keyword :: "string list \<Rightarrow> string \<Rightarrow> nat \<Rightarrow> string option" where
  "spec_longest_keyword kws buf i =
     (case filter (kw_matches buf i) kws of
        [] \<Rightarrow> None
      | k # ks \<Rightarrow> Some (fold (\<lambda>a b. if klen_of b < klen_of a then a else b) ks k))"



definition C_syntax :: editorSyntax where
  "C_syntax = hd HLDB"

text \<open>The index of the scan is inside the row (or just past it) and \<open>hl\<close> has the
  length of the render.\<close>

definition scan_wf :: "string \<Rightarrow> scan_state \<Rightarrow> bool" where
  "scan_wf r s = (sc_i s \<le> length r \<and> length (sc_hl s) = length r)"

text \<open>What one pass through the body does to \<open>hl\<close>: it writes the class \<open>v\<close> to the
  positions from the old index up to the new one and leaves the others.\<close>

definition pass_writes :: "string \<Rightarrow> scan_state \<Rightarrow> scan_state \<Rightarrow> editorHighlight \<Rightarrow> bool" where
  "pass_writes r s s' v =
     (sc_i s \<le> sc_i s' \<and> sc_i s' \<le> length r \<and> length (sc_hl s') = length r
      \<and> (\<forall>p < length r. sc_hl s' ! p = (if sc_i s \<le> p \<and> p < sc_i s' then v else sc_hl s ! p)))"

text \<open>A descriptor with a keyword that holds a separator character.\<close>

definition cobol_syntax :: editorSyntax where
  "cobol_syntax =
     \<lparr>filetype = ''cobol'', filematch = [''.cob''], keywords' = [''end'', ''end-if''],
      singleline_comment_start = None, multiline_comment_start = None,
      multiline_comment_end = None, flags = 0\<rparr>"

text \<open>The state after \<open>n\<close> passes of the loop from \<open>s\<close>, when the loop makes that many
  without leaving.\<close>

fun scan_steps :: "editorSyntax \<Rightarrow> string \<Rightarrow> scan_state \<Rightarrow> nat \<Rightarrow> scan_state option" where
  "scan_steps syn r s 0 = Some s"
| "scan_steps syn r s (Suc n) =
     (if sc_i s < length r
      then (case scan_body syn r s of
              Continue u \<Rightarrow> scan_steps syn r u n
            | Break u \<Rightarrow> None)
      else None)"

text \<open>The scan of \<open>x = int\<close> when it arrives at \<open>int\<close>.\<close>

definition at_int :: scan_state where
  "at_int = \<lparr>sc_i = 4, sc_hl = replicate 7 HL_NORMAL, prev_sep = True, in_string = NUL,
             in_comment = False\<rparr>"










section \<open>Auxiliary facts\<close>

lemma idx_ok_nth: "idx_ok rows \<Longrightarrow> j < length rows \<Longrightarrow> idx (rows ! j) = int j"
proof -
  assume a: "idx_ok rows" and b: "j < length rows"
  from a have "map idx rows ! j = map int [0 ..< length rows] ! j"
    by (simp add: idx_ok_def)
  with b show ?thesis by simp
qed

lemma update_syntax_row_Some:
  assumes "idx_ok (row E)" "p < length (row E)"
  shows "\<exists>rw' again. update_syntax_row E p = Some (E\<lparr>row := (row E)[p := rw']\<rparr>, again)
           \<and> erow_text rw' = erow_text (row E ! p)
           \<and> (again \<longrightarrow> int p + 1 < numrows E)"
proof (cases "syntax' E")
  case None
  with assms show ?thesis
    by (intro exI[of _ "(row E ! p)\<lparr>hl := replicate (length (render (row E ! p))) HL_NORMAL\<rparr>"]
              exI[of _ False])
       (simp add: update_syntax_row_def erow_text_def)
next
  case (Some syn)
  define s where "s = scan_row syn (render (row E ! p))
                        (idx (row E ! p) > 0 \<and> hl_open_comment (row E ! nat (idx (row E ! p) - 1)))"
  from assms idx_ok_nth[OF assms] Some show ?thesis
    by (intro exI[of _ "(row E ! p)\<lparr>hl := sc_hl s, hl_open_comment := in_comment s\<rparr>"]
              exI[of _ "hl_open_comment (row E ! p) \<noteq> in_comment s \<and> idx (row E ! p) + 1 < numrows E"])
       (simp add: update_syntax_row_def erow_text_def Let_def s_def)
qed

lemma map_erow_text_update:
  "erow_text rw = erow_text (rows ! p) \<Longrightarrow> map erow_text (rows[p := rw]) = map erow_text rows"
  by (metis list_update_id map_update)

lemma idx_ok_text: "map erow_text rows' = map erow_text rows \<Longrightarrow> idx_ok rows \<Longrightarrow> idx_ok rows'"
proof -
  assume a: "map erow_text rows' = map erow_text rows" and b: "idx_ok rows"
  have "map idx rows' = map (fst \<circ> erow_text) rows'" by (simp add: erow_text_def comp_def)
  also have "\<dots> = map fst (map erow_text rows')" by simp
  also have "\<dots> = map fst (map erow_text rows)" by (simp only: a)
  also have "\<dots> = map idx rows" by (simp add: erow_text_def comp_def)
  finally have "map idx rows' = map idx rows" .
  moreover from a have "length rows' = length rows" by (metis length_map)
  ultimately show ?thesis using b by (simp add: idx_ok_def)
qed

lemma editorUpdateSyntax_total:
  "idx_ok (row E) \<Longrightarrow> p < length (row E) \<Longrightarrow> numrows E \<le> int (length (row E)) \<Longrightarrow>
   \<exists>rows'. editorUpdateSyntax E p = Some (E\<lparr>row := rows'\<rparr>)
        \<and> map erow_text rows' = map erow_text (row E)"
proof (induction "length (row E) - p" arbitrary: E p rule: less_induct)
  case less
  from update_syntax_row_Some[OF less.prems(1,2)] obtain rw' again where
    u: "update_syntax_row E p = Some (E\<lparr>row := (row E)[p := rw']\<rparr>, again)" and
    tx: "erow_text rw' = erow_text (row E ! p)" and
    ag: "again \<longrightarrow> int p + 1 < numrows E"
    by blast
  define E1 where "E1 = E\<lparr>row := (row E)[p := rw']\<rparr>"
  have t1: "map erow_text (row E1) = map erow_text (row E)"
    unfolding E1_def using map_erow_text_update[OF tx] by simp
  show ?case
  proof (cases again)
    case False
    with u t1 show ?thesis
      by (subst editorUpdateSyntax.simps) (auto simp: E1_def)
  next
    case True
    with ag have p1: "Suc p < length (row E1)" using less.prems(3) by (simp add: E1_def)
    have i1: "idx_ok (row E1)" using idx_ok_text[OF t1 less.prems(1)] .
    have "\<exists>rows'. editorUpdateSyntax E1 (Suc p) = Some (E1\<lparr>row := rows'\<rparr>)
        \<and> map erow_text rows' = map erow_text (row E1)"
      using less.hyps[of E1 "Suc p"] i1 p1 less.prems(2,3) by (auto simp: E1_def)
    then obtain rows' where
      r: "editorUpdateSyntax E1 (Suc p) = Some (E1\<lparr>row := rows'\<rparr>)"
      and t': "map erow_text rows' = map erow_text (row E1)" by blast
    have nxt: "nat (idx (row E ! p) + 1) = Suc p"
      using idx_ok_nth[OF less.prems(1,2)] by simp
    have "editorUpdateSyntax E p = Some (E\<lparr>row := rows'\<rparr>)"
      using u True r nxt by (subst editorUpdateSyntax.simps) (simp add: E1_def)
    with t' t1 show ?thesis by auto
  qed
qed

lemma erow_text_maps:
  assumes "map erow_text a = map erow_text b"
  shows "map idx a = map idx b" "map chars a = map chars b" "map render a = map render b"
proof -
  have "map idx a = map fst (map erow_text a)" by (simp add: erow_text_def comp_def)
  also have "\<dots> = map fst (map erow_text b)" by (simp only: assms)
  finally show "map idx a = map idx b" by (simp add: erow_text_def comp_def)
  have "map chars a = map (fst \<circ> snd) (map erow_text a)" by (simp add: erow_text_def comp_def)
  also have "\<dots> = map (fst \<circ> snd) (map erow_text b)" by (simp only: assms)
  finally show "map chars a = map chars b" by (simp add: erow_text_def comp_def)
  have "map render a = map (snd \<circ> snd) (map erow_text a)" by (simp add: erow_text_def comp_def)
  also have "\<dots> = map (snd \<circ> snd) (map erow_text b)" by (simp only: assms)
  finally show "map render a = map render b" by (simp add: erow_text_def comp_def)
qed

lemma editorUpdateRow_total:
  assumes "idx_ok (row E)" "p < length (row E)" "numrows E \<le> int (length (row E))"
  shows "\<exists>rows'. editorUpdateRow E p = Some (E\<lparr>row := rows'\<rparr>)
           \<and> map idx rows' = map idx (row E)
           \<and> map chars rows' = map chars (row E)
           \<and> map render rows' = (map render (row E))[p := render_loop (chars (row E ! p)) []]"
proof -
  define rw where "rw = (row E ! p)\<lparr>render := render_loop (chars (row E ! p)) []\<rparr>"
  define E1 where "E1 = E\<lparr>row := (row E)[p := rw]\<rparr>"
  have ix: "map idx (row E1) = map idx (row E)"
    unfolding E1_def rw_def by (simp add: map_update) (metis list_update_id map_update)
  have ch: "map chars (row E1) = map chars (row E)"
    unfolding E1_def rw_def by (simp add: map_update) (metis list_update_id map_update)
  have rn: "map render (row E1) = (map render (row E))[p := render_loop (chars (row E ! p)) []]"
    unfolding E1_def rw_def by (simp add: map_update)
  have "idx_ok (row E1)"
    using assms(1) ix by (simp add: idx_ok_def E1_def)
  moreover have "p < length (row E1)" "numrows E1 \<le> int (length (row E1))"
    using assms by (simp_all add: E1_def)
  ultimately obtain rows' where
    u: "editorUpdateSyntax E1 p = Some (E1\<lparr>row := rows'\<rparr>)" and
    tx: "map erow_text rows' = map erow_text (row E1)"
    using editorUpdateSyntax_total[of E1 p] by blast
  have "editorUpdateRow E p = Some (E\<lparr>row := rows'\<rparr>)"
    using assms(2) u by (simp add: editorUpdateRow_def E1_def rw_def)
  with erow_text_maps[OF tx] ix ch rn show ?thesis by auto
qed

lemma tab_fill_eq:
  "tab_fill rb = rb @ replicate ((KILO_TAB_STOP - length rb mod KILO_TAB_STOP) mod KILO_TAB_STOP) (CHR '' '')"
proof (induction rb rule: tab_fill.induct)
  case (1 rb)
  show ?case
  proof (cases "length rb mod KILO_TAB_STOP \<noteq> 0")
    case True
    have "(8 - length rb mod 8) mod 8 = Suc ((8 - Suc (length rb) mod 8) mod 8)"
      using True by (auto simp: KILO_TAB_STOP_def mod_Suc)
    then show ?thesis
      using True 1 by (subst tab_fill.simps) (simp add: KILO_TAB_STOP_def replicate_app_Cons_same)
  next
    case False
    then show ?thesis by (subst tab_fill.simps) (simp add: KILO_TAB_STOP_def)
  qed
qed

lemma length_render_tabs:
  "set cs \<subseteq> {TAB} \<Longrightarrow> length rb mod KILO_TAB_STOP = 0 \<Longrightarrow>
   length (render_loop cs rb) = length rb + KILO_TAB_STOP * length cs"
proof (induction cs arbitrary: rb)
  case Nil
  then show ?case by simp
next
  case (Cons c cs)
  have l: "length (tab_fill (rb @ '' '')) = length rb + KILO_TAB_STOP"
    using Cons.prems(2) by (simp add: tab_fill_eq KILO_TAB_STOP_def mod_Suc)
  then have "length (tab_fill (rb @ '' '')) mod KILO_TAB_STOP = 0"
    using Cons.prems(2) by simp
  with Cons l show ?case by simp
qed

lemma cx_to_rx_step_gt: "0 \<le> r \<Longrightarrow> r < cx_to_rx_step r c"
proof -
  have "r mod 8 \<le> 7" using pos_mod_bound[of 8 r] by simp
  then show ?thesis by (simp add: cx_to_rx_step_def KILO_TAB_STOP_def)
qed

lemma foldl_cx_to_rx_ge: "0 \<le> r \<Longrightarrow> r \<le> foldl cx_to_rx_step r cs"
proof (induction cs arbitrary: r)
  case Nil
  then show ?case by simp
next
  case (Cons c cs)
  from cx_to_rx_step_gt[OF Cons.prems, of c] have "r < cx_to_rx_step r c" .
  moreover from this Cons.prems have "cx_to_rx_step r c \<le> foldl cx_to_rx_step (cx_to_rx_step r c) cs"
    by (intro Cons.IH) simp
  ultimately show ?case by simp
qed

lemma rx_to_cx_loop_roundtrip:
  "0 \<le> cur \<Longrightarrow> k \<le> length cs \<Longrightarrow>
   rx_to_cx_loop cs (foldl cx_to_rx_step cur (take k cs)) cur x = x + int k"
proof (induction cs arbitrary: cur x k)
  case Nil
  then show ?case by simp
next
  case (Cons c cs)
  show ?case
  proof (cases k)
    case 0
    with cx_to_rx_step_gt[OF Cons.prems(1), of c] show ?thesis by simp
  next
    case (Suc k')
    have pos: "0 \<le> cx_to_rx_step cur c"
      using cx_to_rx_step_gt[OF Cons.prems(1), of c] Cons.prems(1) by simp
    have "cx_to_rx_step cur c \<le> foldl cx_to_rx_step (cx_to_rx_step cur c) (take k' cs)"
      by (rule foldl_cx_to_rx_ge[OF pos])
    moreover have "rx_to_cx_loop cs (foldl cx_to_rx_step (cx_to_rx_step cur c) (take k' cs))
                     (cx_to_rx_step cur c) (x + 1) = x + 1 + int k'"
      using Cons.prems(2) Suc by (intro Cons.IH[OF pos]) simp
    ultimately show ?thesis using Suc by simp
  qed
qed

lemma idx_ok_iff: "idx_ok rows \<longleftrightarrow> (\<forall>j < length rows. idx (rows ! j) = int j)"
proof
  assume "idx_ok rows"
  then show "\<forall>j < length rows. idx (rows ! j) = int j"
    using idx_ok_nth by blast
next
  assume a: "\<forall>j < length rows. idx (rows ! j) = int j"
  show "idx_ok rows"
    unfolding idx_ok_def
  proof (rule nth_equalityI)
    show "length (map idx rows) = length (map int [0 ..< length rows])" by simp
  next
    fix i assume "i < length (map idx rows)"
    then show "map idx rows ! i = map int [0 ..< length rows] ! i"
      using a by simp
  qed
qed

lemma idx_ok_insert:
  assumes "idx_ok rows" "a \<le> length rows" "idx new = int a"
  shows "idx_ok (take a rows @ [new] @ map (\<lambda>rw. rw\<lparr>idx := idx rw + 1\<rparr>) (drop a rows))"
  unfolding idx_ok_iff
proof (intro allI impI)
  fix j
  assume j: "j < length (take a rows @ [new] @ map (\<lambda>rw. rw\<lparr>idx := idx rw + 1\<rparr>) (drop a rows))"
  from assms(1) have ok: "\<And>i. i < length rows \<Longrightarrow> idx (rows ! i) = int i"
    by (simp add: idx_ok_iff)
  consider "j < a" | "j = a" | "a < j" by linarith
  then show "idx ((take a rows @ [new] @ map (\<lambda>rw. rw\<lparr>idx := idx rw + 1\<rparr>) (drop a rows)) ! j) = int j"
  proof cases
    case 1
    with assms(2) ok show ?thesis by (simp add: nth_append)
  next
    case 2
    with assms(2,3) show ?thesis by (simp add: nth_append)
  next
    case 3
    then obtain d where d: "j = Suc (a + d)" by (metis less_imp_Suc_add)
    with j assms(2) have "a + d < length rows" by simp
    with d assms(2) ok show ?thesis by (simp add: nth_append)
  qed
qed

lemma idx_ok_delete:
  assumes "idx_ok rows" "a < length rows"
  shows "idx_ok (take a rows @ map (\<lambda>rw. rw\<lparr>idx := idx rw - 1\<rparr>) (drop (Suc a) rows))"
  unfolding idx_ok_iff
proof (intro allI impI)
  fix j
  assume j: "j < length (take a rows @ map (\<lambda>rw. rw\<lparr>idx := idx rw - 1\<rparr>) (drop (Suc a) rows))"
  from assms(1) have ok: "\<And>i. i < length rows \<Longrightarrow> idx (rows ! i) = int i"
    by (simp add: idx_ok_iff)
  show "idx ((take a rows @ map (\<lambda>rw. rw\<lparr>idx := idx rw - 1\<rparr>) (drop (Suc a) rows)) ! j) = int j"
  proof (cases "j < a")
    case True
    with assms(2) ok show ?thesis by (simp add: nth_append)
  next
    case False
    then obtain d where d: "j = a + d" by (metis le_Suc_ex not_less)
    with j assms(2) have "Suc (a + d) < length rows" by simp
    with d assms(2) ok show ?thesis by (simp add: nth_append)
  qed
qed

lemma editorInsertRow_total:
  assumes "wf_doc E" "0 \<le> at" "at \<le> numrows E"
  shows "\<exists>rows'. editorInsertRow E at s = Some (E\<lparr>row := rows', numrows := numrows E + 1, dirty := dirty E + 1\<rparr>)
           \<and> idx_ok rows' \<and> length rows' = Suc (length (row E))
           \<and> map chars rows' = take (nat at) (map chars (row E)) @ s # drop (nat at) (map chars (row E))"
proof -
  define new where "new = \<lparr>idx = at, chars = s, render = [], hl = [], hl_open_comment = False\<rparr>"
  define rows where "rows = take (nat at) (row E) @ [new]
                   @ map (\<lambda>rw. rw\<lparr>idx := idx rw + 1\<rparr>) (drop (nat at) (row E))"
  define E1 where "E1 = E\<lparr>row := rows\<rparr>"
  from assms have a: "nat at \<le> length (row E)" by (simp add: wf_doc_def)
  have "idx_ok rows"
    unfolding rows_def using assms a by (intro idx_ok_insert) (simp_all add: wf_doc_def new_def)
  then have ok: "idx_ok (row E1)" by (simp add: E1_def)
  have len: "length (row E1) = Suc (length (row E))"
    using a by (simp add: E1_def rows_def)
  have ch: "map chars (row E1) = take (nat at) (map chars (row E)) @ s # drop (nat at) (map chars (row E))"
    by (simp add: E1_def rows_def new_def take_map drop_map comp_def)
  have "nat at < length (row E1)" "numrows E1 \<le> int (length (row E1))"
    using a len assms(1) by (simp_all add: wf_doc_def E1_def)
  with ok obtain rows' where
    u: "editorUpdateRow E1 (nat at) = Some (E1\<lparr>row := rows'\<rparr>)" and
    ix: "map idx rows' = map idx (row E1)" and
    cs: "map chars rows' = map chars (row E1)"
    using editorUpdateRow_total[of E1 "nat at"] by blast
  from ix have "length rows' = length (row E1)" by (rule map_eq_imp_length_eq)
  with ix ok have "idx_ok rows'"
    by (simp add: idx_ok_def)
  moreover from cs len have "length rows' = Suc (length (row E))"
    using map_eq_imp_length_eq[OF cs] by simp
  moreover have "editorInsertRow E at s = Some (E\<lparr>row := rows', numrows := numrows E + 1, dirty := dirty E + 1\<rparr>)"
    using assms(2,3) u by (simp add: editorInsertRow_def Let_def E1_def rows_def new_def)
  ultimately show ?thesis using cs ch by (intro exI[of _ rows']) simp
qed

lemma editorRowInsertChar_total:
  assumes "idx_ok (row E)" "p < length (row E)" "numrows E \<le> int (length (row E))"
  shows "\<exists>rows'. editorRowInsertChar E p at c = Some (E\<lparr>row := rows', dirty := dirty E + 1\<rparr>)
           \<and> idx_ok rows' \<and> length rows' = length (row E)
           \<and> map chars rows' = (map chars (row E))
                [p := (let k = (if at < 0 \<or> at > int (length (chars (row E ! p)))
                                then length (chars (row E ! p)) else nat at)
                       in take k (chars (row E ! p)) @ c # drop k (chars (row E ! p)))]"
proof -
  define k where "k = (if at < 0 \<or> at > int (length (chars (row E ! p)))
                       then length (chars (row E ! p)) else nat at)"
  define rw where "rw = (row E ! p)\<lparr>chars := take k (chars (row E ! p)) @ [c] @ drop k (chars (row E ! p))\<rparr>"
  define E1 where "E1 = E\<lparr>row := (row E)[p := rw]\<rparr>"
  have ix: "map idx (row E1) = map idx (row E)"
    unfolding E1_def rw_def by (simp add: map_update) (metis list_update_id map_update)
  then have ok: "idx_ok (row E1)"
    using assms(1) by (simp add: idx_ok_def E1_def)
  have "p < length (row E1)" "numrows E1 \<le> int (length (row E1))"
    using assms by (simp_all add: E1_def)
  with ok obtain rows' where
    u: "editorUpdateRow E1 p = Some (E1\<lparr>row := rows'\<rparr>)" and
    ix': "map idx rows' = map idx (row E1)" and
    cs: "map chars rows' = map chars (row E1)"
    using editorUpdateRow_total[of E1 p] by blast
  from ix' have len: "length rows' = length (row E1)" by (rule map_eq_imp_length_eq)
  with ix' ok have "idx_ok rows'" by (simp add: idx_ok_def)
  moreover from len have "length rows' = length (row E)" by (simp add: E1_def)
  moreover have "editorRowInsertChar E p at c = Some (E\<lparr>row := rows', dirty := dirty E + 1\<rparr>)"
    using assms(2) u
    by (cases "at < 0 \<or> int (length (chars (row E ! p))) < at")
       (simp_all add: editorRowInsertChar_def Let_def E1_def rw_def k_def)
  moreover have "map chars rows' = (map chars (row E))[p := take k (chars (row E ! p)) @ c # drop k (chars (row E ! p))]"
    using cs by (simp add: E1_def rw_def map_update)
  ultimately show ?thesis
    unfolding Let_def k_def[symmetric] by (intro exI[of _ rows']) simp
qed

lemma editorRowDelChar_total:
  assumes "idx_ok (row E)" "p < length (row E)" "numrows E \<le> int (length (row E))"
          "0 \<le> at" "at < int (length (chars (row E ! p)))"
  shows "\<exists>rows'. editorRowDelChar E p at = Some (E\<lparr>row := rows', dirty := dirty E + 1\<rparr>)
           \<and> idx_ok rows' \<and> length rows' = length (row E)
           \<and> map chars rows' = (map chars (row E))
                [p := take (nat at) (chars (row E ! p)) @ drop (nat at + 1) (chars (row E ! p))]"
proof -
  define rw where "rw = (row E ! p)\<lparr>chars := take (nat at) (chars (row E ! p)) @ drop (nat at + 1) (chars (row E ! p))\<rparr>"
  define E1 where "E1 = E\<lparr>row := (row E)[p := rw]\<rparr>"
  have ix: "map idx (row E1) = map idx (row E)"
    unfolding E1_def rw_def by (simp add: map_update) (metis list_update_id map_update)
  then have ok: "idx_ok (row E1)"
    using assms(1) by (simp add: idx_ok_def E1_def)
  have "p < length (row E1)" "numrows E1 \<le> int (length (row E1))"
    using assms by (simp_all add: E1_def)
  with ok obtain rows' where
    u: "editorUpdateRow E1 p = Some (E1\<lparr>row := rows'\<rparr>)" and
    ix': "map idx rows' = map idx (row E1)" and
    cs: "map chars rows' = map chars (row E1)"
    using editorUpdateRow_total[of E1 p] by blast
  from ix' have len: "length rows' = length (row E1)" by (rule map_eq_imp_length_eq)
  with ix' ok have "idx_ok rows'" by (simp add: idx_ok_def)
  moreover from len have "length rows' = length (row E)" by (simp add: E1_def)
  moreover have "editorRowDelChar E p at = Some (E\<lparr>row := rows', dirty := dirty E + 1\<rparr>)"
    using assms(2,4,5) u by (simp add: editorRowDelChar_def Let_def E1_def rw_def)
  moreover have "map chars rows' = (map chars (row E))[p := take (nat at) (chars (row E ! p)) @ drop (nat at + 1) (chars (row E ! p))]"
    using cs by (simp add: E1_def rw_def map_update)
  ultimately show ?thesis
    by (intro exI[of _ rows']) simp
qed

lemma editorRowAppendString_total:
  assumes "idx_ok (row E)" "p < length (row E)" "numrows E \<le> int (length (row E))"
  shows "\<exists>rows'. editorRowAppendString E p s = Some (E\<lparr>row := rows', dirty := dirty E + 1\<rparr>)
           \<and> idx_ok rows' \<and> length rows' = length (row E)
           \<and> map chars rows' = (map chars (row E))[p := chars (row E ! p) @ s]"
proof -
  define rw where "rw = (row E ! p)\<lparr>chars := chars (row E ! p) @ s\<rparr>"
  define E1 where "E1 = E\<lparr>row := (row E)[p := rw]\<rparr>"
  have ix: "map idx (row E1) = map idx (row E)"
    unfolding E1_def rw_def by (simp add: map_update) (metis list_update_id map_update)
  then have ok: "idx_ok (row E1)"
    using assms(1) by (simp add: idx_ok_def E1_def)
  have "p < length (row E1)" "numrows E1 \<le> int (length (row E1))"
    using assms by (simp_all add: E1_def)
  with ok obtain rows' where
    u: "editorUpdateRow E1 p = Some (E1\<lparr>row := rows'\<rparr>)" and
    ix': "map idx rows' = map idx (row E1)" and
    cs: "map chars rows' = map chars (row E1)"
    using editorUpdateRow_total[of E1 p] by blast
  from ix' have len: "length rows' = length (row E1)" by (rule map_eq_imp_length_eq)
  with ix' ok have "idx_ok rows'" by (simp add: idx_ok_def)
  moreover from len have "length rows' = length (row E)" by (simp add: E1_def)
  moreover have "editorRowAppendString E p s = Some (E\<lparr>row := rows', dirty := dirty E + 1\<rparr>)"
    using assms(2) u by (simp add: editorRowAppendString_def Let_def E1_def rw_def)
  moreover have "map chars rows' = (map chars (row E))[p := chars (row E ! p) @ s]"
    using cs by (simp add: E1_def rw_def map_update)
  ultimately show ?thesis
    by (intro exI[of _ rows']) simp
qed

lemma editorDelRow_chars:
  assumes "0 \<le> at" "at < numrows E"
  shows "editorDelRow E at = E\<lparr>row := row (editorDelRow E at), numrows := numrows E - 1, dirty := dirty E + 1\<rparr>"
        "row_chars (editorDelRow E at) = take (nat at) (row_chars E) @ drop (Suc (nat at)) (row_chars E)"
  using assms by (simp_all add: editorDelRow_def row_chars_def take_map drop_map comp_def)

lemma nth_map_chars: "j < length rows \<Longrightarrow> chars (rows ! j) = map chars rows ! j"
  by simp

lemma editorInsertNewline_total:
  assumes "wf_doc E" "0 \<le> cy E" "cy E < numrows E"
          "0 \<le> cx E" "cx E \<le> int (length (chars (row E ! nat (cy E))))"
  shows "\<exists>rows1. editorInsertNewline E
             = Some (E\<lparr>row := rows1, numrows := numrows E + 1, dirty := dirty E + 1,
                       cy := cy E + 1, cx := 0\<rparr>)
           \<and> idx_ok rows1 \<and> length rows1 = Suc (length (row E))
           \<and> map chars rows1
               = take (nat (cy E)) (row_chars E)
                 @ take (nat (cx E)) (chars (row E ! nat (cy E)))
                 # drop (nat (cx E)) (chars (row E ! nat (cy E)))
                 # drop (Suc (nat (cy E))) (row_chars E)"
proof (cases "cx E = 0")
  case True
  from assms have y: "nat (cy E) < length (row E)" by (simp add: wf_doc_def)
  from editorInsertRow_total[OF assms(1,2), of "[]"] assms(3) obtain rows1 where
    i: "editorInsertRow E (cy E) [] = Some (E\<lparr>row := rows1, numrows := numrows E + 1, dirty := dirty E + 1\<rparr>)" and
    ok: "idx_ok rows1" and len: "length rows1 = Suc (length (row E))" and
    c: "map chars rows1 = take (nat (cy E)) (map chars (row E)) @ [] # drop (nat (cy E)) (map chars (row E))"
    by auto
  have "drop (nat (cy E)) (map chars (row E)) = chars (row E ! nat (cy E)) # drop (Suc (nat (cy E))) (map chars (row E))"
    using y Cons_nth_drop_Suc[of "nat (cy E)" "map chars (row E)"] by simp
  with c True have "map chars rows1 = take (nat (cy E)) (row_chars E)
                 @ take (nat (cx E)) (chars (row E ! nat (cy E)))
                 # drop (nat (cx E)) (chars (row E ! nat (cy E)))
                 # drop (Suc (nat (cy E))) (row_chars E)"
    by (simp add: row_chars_def)
  moreover have "editorInsertNewline E
             = Some (E\<lparr>row := rows1, numrows := numrows E + 1, dirty := dirty E + 1,
                       cy := cy E + 1, cx := 0\<rparr>)"
    using True i by (simp add: editorInsertNewline_def)
  ultimately show ?thesis using ok len by (intro exI[of _ rows1]) simp
next
  case False
  define y where "y = nat (cy E)"
  define x where "x = nat (cx E)"
  define cs where "cs = chars (row E ! y)"
  from assms have yl: "y < length (row E)" by (simp add: wf_doc_def y_def)
  have a0: "0 \<le> cy E + 1" "cy E + 1 \<le> numrows E" using assms(2,3) by simp_all
  from editorInsertRow_total[OF assms(1) a0, of "drop x cs"] obtain rows2 where
    i: "editorInsertRow E (cy E + 1) (drop x cs) = Some (E\<lparr>row := rows2, numrows := numrows E + 1, dirty := dirty E + 1\<rparr>)" and
    ok2: "idx_ok rows2" and len2: "length rows2 = Suc (length (row E))" and
    c2: "map chars rows2 = take (nat (cy E + 1)) (map chars (row E)) @ drop x cs # drop (nat (cy E + 1)) (map chars (row E))"
    by blast
  have ny: "nat (cy E + 1) = Suc y" using assms(2) by (simp add: y_def nat_add_distrib)
  define E2 where "E2 = E\<lparr>row := rows2, numrows := numrows E + 1, dirty := dirty E + 1\<rparr>"
  have c2y: "chars (rows2 ! y) = cs"
  proof -
    have "chars (rows2 ! y) = map chars rows2 ! y" using yl len2 by simp
    also have "\<dots> = cs" using yl by (simp add: c2 ny nth_append cs_def)
    finally show ?thesis .
  qed
  define rw where "rw = (rows2 ! y)\<lparr>chars := take x cs\<rparr>"
  define E3 where "E3 = E2\<lparr>row := rows2[y := rw]\<rparr>"
  have ix3: "map idx (row E3) = map idx rows2"
    unfolding E3_def rw_def by (simp add: map_update) (metis list_update_id map_update)
  have ok3: "idx_ok (row E3)"
    using ix3 ok2 by (simp add: idx_ok_def E3_def)
  have "y < length (row E3)" "numrows E3 \<le> int (length (row E3))"
    using yl len2 assms(1) by (simp_all add: E3_def E2_def wf_doc_def)
  with ok3 obtain rows3 where
    u: "editorUpdateRow E3 y = Some (E3\<lparr>row := rows3\<rparr>)" and
    ix': "map idx rows3 = map idx (row E3)" and
    c3: "map chars rows3 = map chars (row E3)"
    using editorUpdateRow_total[of E3 y] by blast
  from ix' have len3: "length rows3 = length (row E3)" by (rule map_eq_imp_length_eq)
  with ix' ok3 have o: "idx_ok rows3" by (simp add: idx_ok_def)
  from len3 len2 have l: "length rows3 = Suc (length (row E))" by (simp add: E3_def)
  have "map chars (row E3) = (map chars rows2)[y := take x cs]"
    by (simp add: E3_def rw_def map_update)
  also have "\<dots> = take y (map chars (row E)) @ take x cs # drop x cs # drop (Suc y) (map chars (row E))"
    using yl by (simp add: c2 ny take_Suc_conv_app_nth list_update_append cs_def)
  finally have c: "map chars rows3 = take y (row_chars E) @ take x cs # drop x cs # drop (Suc y) (row_chars E)"
    using c3 by (simp add: row_chars_def)
  have guard: "\<not> (cy E < 0 \<or> int (length (row E)) \<le> cy E \<or> cx E < 0
                 \<or> int (length (chars (row E ! nat (cy E)))) < cx E)"
    using assms by (simp add: wf_doc_def)
  have "editorInsertNewline E
             = Some (E\<lparr>row := rows3, numrows := numrows E + 1, dirty := dirty E + 1,
                       cy := cy E + 1, cx := 0\<rparr>)"
    using False guard i u c2y
    by (simp add: editorInsertNewline_def Let_def E3_def E2_def rw_def y_def[symmetric] x_def[symmetric] cs_def[symmetric])
  with o l c show ?thesis
    unfolding y_def[symmetric] x_def[symmetric] cs_def[symmetric]
    by (intro exI[of _ rows3]) simp
qed

lemma editorDelChar_join:
  assumes "wf_doc E" "cx E = 0" "0 < cy E" "cy E < numrows E"
  shows "\<exists>rows2. editorDelChar E
             = Some (E\<lparr>row := rows2, numrows := numrows E - 1, dirty := dirty E + 2,
                       cx := int (length (chars (row E ! nat (cy E - 1)))), cy := cy E - 1\<rparr>)
           \<and> map chars rows2
               = take (nat (cy E - 1)) (row_chars E)
                 @ (chars (row E ! nat (cy E - 1)) @ chars (row E ! nat (cy E)))
                 # drop (Suc (nat (cy E))) (row_chars E)"
proof -
  define y where "y = nat (cy E - 1)"
  have ny: "nat (cy E) = Suc y" using assms(3) by (simp add: y_def)
  from assms have yl: "Suc y < length (row E)" by (simp add: wf_doc_def y_def)
  define E1 where "E1 = E\<lparr>cx := int (length (chars (row E ! y)))\<rparr>"
  have "idx_ok (row E1)" "y < length (row E1)" "numrows E1 \<le> int (length (row E1))"
    using assms(1) yl by (simp_all add: E1_def wf_doc_def)
  from editorRowAppendString_total[OF this, of "chars (row E ! Suc y)"] obtain rows1 where
    a: "editorRowAppendString E1 y (chars (row E ! Suc y)) = Some (E1\<lparr>row := rows1, dirty := dirty E1 + 1\<rparr>)" and
    len1: "length rows1 = length (row E)" and
    c1: "map chars rows1 = (map chars (row E))[y := chars (row E ! y) @ chars (row E ! Suc y)]"
    by (auto simp: E1_def)
  define E2 where "E2 = E1\<lparr>row := rows1, dirty := dirty E1 + 1\<rparr>"
  have d0: "0 \<le> cy E2" "cy E2 < numrows E2"
    using assms(3,4) by (simp_all add: E2_def E1_def)
  have rc2: "row_chars E2 = (map chars (row E))[y := chars (row E ! y) @ chars (row E ! Suc y)]"
    by (simp add: row_chars_def E2_def c1)
  have n2: "nat (cy E2) = Suc y" by (simp add: E2_def E1_def ny)
  have t2: "take (Suc y) (row_chars E2)
              = take y (row_chars E) @ [chars (row E ! y) @ chars (row E ! Suc y)]"
    using yl by (simp only: rc2) (simp add: take_Suc_conv_app_nth row_chars_def)
  have d2: "drop (Suc (Suc y)) (row_chars E2) = drop (Suc (Suc y)) (row_chars E)"
    by (simp only: rc2) (simp add: row_chars_def)
  have "row_chars (editorDelRow E2 (cy E2))
          = take (nat (cy E2)) (row_chars E2) @ drop (Suc (nat (cy E2))) (row_chars E2)"
    by (rule editorDelRow_chars(2)[OF d0])
  also have "\<dots> = take y (row_chars E) @ (chars (row E ! y) @ chars (row E ! Suc y))
                       # drop (Suc (Suc y)) (row_chars E)"
    by (simp only: n2 t2 d2) simp
  finally have c: "map chars (row (editorDelRow E2 (cy E2)))
          = take y (row_chars E) @ (chars (row E ! y) @ chars (row E ! Suc y))
                       # drop (Suc (Suc y)) (row_chars E)"
    by (simp add: row_chars_def)
  have guard: "cy E \<noteq> numrows E" "\<not> (cx E = 0 \<and> cy E = 0)"
              "\<not> (cy E < 0 \<or> int (length (row E)) \<le> cy E)" "\<not> cx E > 0" "\<not> cy E - 1 < 0"
    using assms by (simp_all add: wf_doc_def)
  have "editorDelChar E
          = Some ((editorDelRow E2 (cy E2))\<lparr>cy := cy (editorDelRow E2 (cy E2)) - 1\<rparr>)"
    using guard a
    by (simp add: editorDelChar_def Let_def E2_def E1_def y_def[symmetric] ny)
  also have "editorDelRow E2 (cy E2)
          = E2\<lparr>row := row (editorDelRow E2 (cy E2)), numrows := numrows E2 - 1, dirty := dirty E2 + 1\<rparr>"
    by (rule editorDelRow_chars(1)[OF d0])
  finally have "editorDelChar E
          = Some (E\<lparr>row := row (editorDelRow E2 (cy E2)), numrows := numrows E - 1, dirty := dirty E + 2,
                       cx := int (length (chars (row E ! y))), cy := cy E - 1\<rparr>)"
    by (simp add: E2_def E1_def)
  with c show ?thesis
    unfolding y_def[symmetric] ny
    by (intro exI[of _ "row (editorDelRow E2 (cy E2))"]) simp
qed

lemma update_all_rows_total:
  "idx_ok (row E) \<Longrightarrow> numrows E \<le> int (length (row E)) \<Longrightarrow> \<forall>p \<in> set ps. p < length (row E) \<Longrightarrow>
   \<exists>rows'. update_all_rows E ps = Some (E\<lparr>row := rows'\<rparr>)
        \<and> map erow_text rows' = map erow_text (row E)"
proof (induction ps arbitrary: E)
  case Nil
  show ?case by (intro exI[of _ "row E"]) simp
next
  case (Cons p ps)
  from Cons.prems have "p < length (row E)" by simp
  from editorUpdateSyntax_total[OF Cons.prems(1) this Cons.prems(2)] obtain rows1 where
    u: "editorUpdateSyntax E p = Some (E\<lparr>row := rows1\<rparr>)" and
    t1: "map erow_text rows1 = map erow_text (row E)" by blast
  define E1 where "E1 = E\<lparr>row := rows1\<rparr>"
  from t1 have len: "length rows1 = length (row E)" by (rule map_eq_imp_length_eq)
  have "idx_ok (row E1)" using idx_ok_text[OF t1 Cons.prems(1)] by (simp add: E1_def)
  moreover have "numrows E1 \<le> int (length (row E1))" using Cons.prems(2) len by (simp add: E1_def)
  moreover have "\<forall>p \<in> set ps. p < length (row E1)" using Cons.prems(3) len by (simp add: E1_def)
  ultimately obtain rows' where
    r: "update_all_rows E1 ps = Some (E1\<lparr>row := rows'\<rparr>)" and
    t': "map erow_text rows' = map erow_text (row E1)"
    using Cons.IH[of E1] by blast
  from u r have "update_all_rows E (p # ps) = Some (E\<lparr>row := rows'\<rparr>)"
    by (simp add: E1_def)
  with t' t1 show ?case by (intro exI[of _ rows']) (simp add: E1_def)
qed

lemma select_from_total:
  "wf_doc E \<Longrightarrow>
   \<exists>rows' syn. select_from E fname db = Some (E\<lparr>row := rows', syntax' := syn\<rparr>)
        \<and> map erow_text rows' = map erow_text (row E)"
proof (induction db)
  case Nil
  show ?case by (intro exI[of _ "row E"] exI[of _ "syntax' E"]) simp
next
  case (Cons s db)
  show ?case
  proof (cases "filematch_any fname (filematch s)")
    case False
    with Cons show ?thesis by simp
  next
    case True
    define E1 where "E1 = E\<lparr>syntax' := Some s\<rparr>"
    have "idx_ok (row E1)" "numrows E1 \<le> int (length (row E1))"
         "\<forall>p \<in> set [0 ..< nat (numrows E)]. p < length (row E1)"
      using Cons.prems by (simp_all add: wf_doc_def E1_def)
    from update_all_rows_total[OF this] obtain rows' where
      "update_all_rows E1 [0 ..< nat (numrows E)] = Some (E1\<lparr>row := rows'\<rparr>)"
      "map erow_text rows' = map erow_text (row E1)" by blast
    with True show ?thesis
      by (intro exI[of _ rows'] exI[of _ "Some s"]) (simp add: E1_def)
  qed
qed

lemma editorSelectSyntaxHighlight_total:
  assumes "wf_doc E"
  shows "\<exists>rows' syn. editorSelectSyntaxHighlight E = Some (E\<lparr>row := rows', syntax' := syn\<rparr>)
        \<and> map erow_text rows' = map erow_text (row E)"
proof (cases "filename E")
  case None
  then show ?thesis
    by (intro exI[of _ "row E"] exI[of _ None]) (simp add: editorSelectSyntaxHighlight_def)
next
  case (Some fname)
  have "wf_doc (E\<lparr>syntax' := None\<rparr>)" using assms by (simp add: wf_doc_def)
  from select_from_total[OF this, of fname HLDB] Some show ?thesis
    by (auto simp: editorSelectSyntaxHighlight_def)
qed

lemma wf_doc_text:
  "wf_doc E \<Longrightarrow> map erow_text rows' = map erow_text (row E) \<Longrightarrow> numrows E' = numrows E \<Longrightarrow>
   row E' = rows' \<Longrightarrow> wf_doc E'"
  using idx_ok_text[of rows' "row E"] map_eq_imp_length_eq[of erow_text rows' erow_text "row E"]
  by (simp add: wf_doc_def)

lemma open_loop_total:
  "wf_doc E \<Longrightarrow>
   \<exists>rows'. open_loop E ls = Some (E\<lparr>row := rows', numrows := numrows E + int (length ls),
                                      dirty := dirty E + int (length ls)\<rparr>)
        \<and> idx_ok rows' \<and> length rows' = length (row E) + length ls
        \<and> map chars rows' = row_chars E @ map strip_eol ls"
proof (induction ls arbitrary: E)
  case Nil
  then show ?case by (intro exI[of _ "row E"]) (simp add: wf_doc_def row_chars_def)
next
  case (Cons l ls)
  have a: "0 \<le> numrows E" "numrows E \<le> numrows E" using Cons.prems by (simp_all add: wf_doc_def)
  from editorInsertRow_total[OF Cons.prems a, of "strip_eol l"] obtain rows1 where
    i: "editorInsertRow E (numrows E) (strip_eol l)
          = Some (E\<lparr>row := rows1, numrows := numrows E + 1, dirty := dirty E + 1\<rparr>)" and
    ok1: "idx_ok rows1" and len1: "length rows1 = Suc (length (row E))" and
    c1: "map chars rows1 = take (nat (numrows E)) (map chars (row E)) @ strip_eol l
                            # drop (nat (numrows E)) (map chars (row E))"
    by blast
  define E1 where "E1 = E\<lparr>row := rows1, numrows := numrows E + 1, dirty := dirty E + 1\<rparr>"
  have w1: "wf_doc E1" using Cons.prems ok1 len1 by (simp add: wf_doc_def E1_def)
  have r1: "row_chars E1 = row_chars E @ [strip_eol l]"
    using Cons.prems by (simp add: row_chars_def E1_def c1 wf_doc_def)
  from Cons.IH[OF w1] obtain rows' where
    o: "open_loop E1 ls = Some (E1\<lparr>row := rows', numrows := numrows E1 + int (length ls),
                                      dirty := dirty E1 + int (length ls)\<rparr>)" and
    ok: "idx_ok rows'" and len: "length rows' = length (row E1) + length ls" and
    c: "map chars rows' = row_chars E1 @ map strip_eol ls"
    by blast
  have "open_loop E (l # ls) = Some (E\<lparr>row := rows', numrows := numrows E + int (length (l # ls)),
                                      dirty := dirty E + int (length (l # ls))\<rparr>)"
    using i o by (simp add: E1_def)
  with ok len c r1 len1 show ?case
    by (intro exI[of _ rows']) (simp add: E1_def)
qed

lemma foldl_buf:
  "foldl (\<lambda>b rw. b @ chars rw @ [LF]) acc rows = acc @ concat (map (\<lambda>s. s @ [LF]) (map chars rows))"
  by (induction rows arbitrary: acc) simp_all

lemma foldl_totlen:
  "foldl (\<lambda>n rw. n + (int (length (chars rw)) + 1)) acc rows
     = acc + (\<Sum>s\<leftarrow>map chars rows. int (length s)) + int (length rows)"
  by (induction rows arbitrary: acc) simp_all

lemma length_concat_lines:
  "int (length (concat (map (\<lambda>s. s @ [LF]) ls))) = (\<Sum>s\<leftarrow>ls. int (length s)) + int (length ls)"
  by (induction ls) simp_all

lemma last_concat_lines:
  "ls \<noteq> [] \<Longrightarrow> last (concat (map (\<lambda>s. s @ [LF]) ls)) = LF"
  by (induction ls) (simp_all add: last_append)

lemma editorRowsToString_eq:
  assumes "wf_doc E"
  shows "editorRowsToString E
           = (concat (map (\<lambda>s. s @ [LF]) (row_chars E)),
              (\<Sum>s\<leftarrow>row_chars E. int (length s)) + numrows E)"
  using assms by (simp add: editorRowsToString_def Let_def foldl_buf foldl_totlen wf_doc_def row_chars_def)

lemma getlines_example: "getlines [] [CHR ''a'', CR, LF, CHR ''b'', LF] = [[CHR ''a'', CR, LF], [CHR ''b'', LF]]"
  by (simp add: LF_def CR_def)

lemma strip_eol_example:
  "strip_eol [CHR ''a'', CR, LF] = ''a''" "strip_eol [CHR ''b'', LF] = ''b''"
  by (simp_all add: strip_eol_def LF_def CR_def)

lemma editorScroll_frame:
  "row (editorScroll E) = row E" "dirty (editorScroll E) = dirty E" "numrows (editorScroll E) = numrows E"
  "filename (editorScroll E) = filename E" "syntax' (editorScroll E) = syntax' E"
  by (simp_all add: editorScroll_def Let_def)

lemma editorPrompt_frame:
  "editorPrompt fmt None buf (u, E) keys = Some (a, (u', E'), keys') \<Longrightarrow>
   row E' = row E \<and> dirty E' = dirty E \<and> numrows E' = numrows E
   \<and> filename E' = filename E \<and> syntax' E' = syntax' E"
proof (induction keys arbitrary: buf E)
  case Nil
  then show ?case by simp
next
  case (Cons c keys)
  define E1 where "E1 = editorRefreshScreen (editorSetStatusMessage E (fmt buf))"
  have f1: "row E1 = row E \<and> dirty E1 = dirty E \<and> numrows E1 = numrows E
            \<and> filename E1 = filename E \<and> syntax' E1 = syntax' E"
    by (simp add: E1_def editorRefreshScreen_def editorScroll_frame editorSetStatusMessage_def)
  have f2: "row (editorSetStatusMessage E1 []) = row E \<and> dirty (editorSetStatusMessage E1 []) = dirty E
            \<and> numrows (editorSetStatusMessage E1 []) = numrows E
            \<and> filename (editorSetStatusMessage E1 []) = filename E
            \<and> syntax' (editorSetStatusMessage E1 []) = syntax' E"
    using f1 by (simp add: editorSetStatusMessage_def)
  consider (del) "c = DEL_KEY \<or> c = CTRL_KEY (CHR ''h'') \<or> c = BACKSPACE"
    | (esc) "\<not> (c = DEL_KEY \<or> c = CTRL_KEY (CHR ''h'') \<or> c = BACKSPACE)" "c = 27"
    | (ret) "\<not> (c = DEL_KEY \<or> c = CTRL_KEY (CHR ''h'') \<or> c = BACKSPACE)" "c \<noteq> 27" "c = 13"
    | (oth) "\<not> (c = DEL_KEY \<or> c = CTRL_KEY (CHR ''h'') \<or> c = BACKSPACE)" "c \<noteq> 27" "c \<noteq> 13"
    by blast
  then show ?case
  proof cases
    case del
    with Cons.prems have "editorPrompt fmt None (if buf \<noteq> [] then butlast buf else buf) (u, E1) keys
                            = Some (a, (u', E'), keys')"
      by (simp add: Let_def E1_def)
    from Cons.IH[OF this] f1 show ?thesis by simp
  next
    case esc
    with Cons.prems have "E' = editorSetStatusMessage E1 []"
      by (simp add: Let_def E1_def)
    with f2 show ?thesis by simp
  next
    case ret
    show ?thesis
    proof (cases "buf \<noteq> []")
      case True
      with ret Cons.prems have "E' = editorSetStatusMessage E1 []"
        by (simp add: Let_def E1_def)
      with f2 show ?thesis by simp
    next
      case False
      with ret Cons.prems have "editorPrompt fmt None buf (u, E1) keys = Some (a, (u', E'), keys')"
        by (simp add: Let_def E1_def)
      from Cons.IH[OF this] f1 show ?thesis by simp
    qed
  next
    case oth
    with Cons.prems have "\<exists>b. editorPrompt fmt None b (u, E1) keys = Some (a, (u', E'), keys')"
      by (cases "\<not> iscntrl c \<and> c < 128") (auto simp: Let_def E1_def)
    then obtain b where "editorPrompt fmt None b (u, E1) keys = Some (a, (u', E'), keys')" by blast
    from Cons.IH[OF this] f1 show ?thesis by simp
  qed
qed

lemma editorRowsToString_cong:
  assumes "wf_doc E" "wf_doc E'" "row_chars E' = row_chars E"
  shows "editorRowsToString E' = editorRowsToString E"
proof -
  from assms have "numrows E' = numrows E"
    using map_eq_imp_length_eq[of chars "row E'" chars "row E"] by (simp add: wf_doc_def row_chars_def)
  with assms(3) show ?thesis
    by (simp add: editorRowsToString_eq[OF assms(1)] editorRowsToString_eq[OF assms(2)])
qed

text \<open>The part of \<open>editorSave\<close> after the file name is known.\<close>

lemma editorSave_named:
  assumes "filename E = Some f"
  shows "editorSave io E keys =
     (if open_ok io \<and> ftruncate_ok io \<and> write_ret io = snd (editorRowsToString E)
      then Some (editorSetStatusMessage (E\<lparr>dirty := 0\<rparr>)
                   (show_int (snd (editorRowsToString E)) @ '' bytes written to disk''),
                 Some (editorRowsToString E), keys)
      else Some (editorSetStatusMessage E (''Can't save! I/O error: '' @ strerror_errno io),
                 (if open_ok io \<and> ftruncate_ok io then Some (editorRowsToString E) else None), keys))"
  using assms by (simp add: editorSave_def split_def Let_def)

lemma strstr_from_Some_iff:
  "(strstr_from h nd k \<noteq> None) = (\<exists>pre post. h = pre @ nd @ post)"
proof (induction h arbitrary: k)
  case Nil
  then show ?case by auto
next
  case (Cons a h)
  show ?case
  proof (cases "take (length nd) (a # h) = nd")
    case True
    then have e: "a # h = [] @ nd @ drop (length nd) (a # h)"
      by (metis append_Nil append_take_drop_id)
    have "\<exists>pre post. a # h = pre @ nd @ post"
      by (rule exI[of _ "[]"], rule exI[of _ "drop (length nd) (a # h)"]) (rule e)
    moreover have "strstr_from (a # h) nd k \<noteq> None"
      using True by (simp del: take_Suc_Cons)
    ultimately show ?thesis by simp
  next
    case False
    have "(\<exists>pre post. a # h = pre @ nd @ post) = (\<exists>pre post. h = pre @ nd @ post)"
    proof
      assume "\<exists>pre post. a # h = pre @ nd @ post"
      then obtain pre post where e: "a # h = pre @ nd @ post" by blast
      show "\<exists>pre post. h = pre @ nd @ post"
      proof (cases pre)
        case Nil
        with e have "take (length nd) (a # h) = nd" by simp
        with False show ?thesis by simp
      next
        case (Cons b pre')
        with e show ?thesis by auto
      qed
    next
      assume "\<exists>pre post. h = pre @ nd @ post"
      then obtain pre post where "h = pre @ nd @ post" by blast
      then have "a # h = (a # pre) @ nd @ post" by simp
      then show "\<exists>pre post. a # h = pre @ nd @ post" by blast
    qed
    with False Cons.IH[of "k + 1"] show ?thesis by (simp del: take_Suc_Cons)
  qed
qed

lemma strstr_Some_iff:
  "(strstr hay needle \<noteq> None) = (\<exists>pre post. cstr hay = pre @ cstr needle @ post)"
  unfolding strstr_def by (rule strstr_from_Some_iff)

lemma wrap_mod:
  fixes n c d :: int
  assumes "0 < n" "- 1 \<le> c" "c < n" "d = 1 \<or> d = - 1" "c = - 1 \<longrightarrow> d = 1"
  shows "(if c + d = - 1 then n - 1 else if c + d = n then 0 else c + d) = (c + d) mod n"
proof (cases "d = 1")
  case True
  show ?thesis
  proof (cases "c + 1 = n")
    case e: True
    have "c + d = n" using True e by simp
    moreover have "n \<noteq> - 1" using assms(1) by simp
    ultimately show ?thesis by simp
  next
    case False
    with assms(2,3) have "0 \<le> c + 1" "c + 1 < n" by linarith+
    with True False show ?thesis by simp
  qed
next
  case False
  with assms(4,5) have d: "d = - 1" and c0: "c \<noteq> - 1" by auto
  show ?thesis
  proof (cases "c = 0")
    case True
    have "(- 1) mod n = n - 1" using assms(1) by (simp add: zmod_minus1)
    with True d show ?thesis by simp
  next
    case False
    with c0 assms(2,3) have "0 \<le> c - 1" "c - 1 < n" "c - 1 \<noteq> - 1" "c - 1 \<noteq> n" by linarith+
    with d show ?thesis by simp
  qed
qed

lemma find_loop_spec:
  assumes "0 < numrows E" "d = 1 \<or> d = - 1" "numrows E \<le> int (length (row E))"
  shows "- 1 \<le> c \<Longrightarrow> c < numrows E \<Longrightarrow> (c = - 1 \<longrightarrow> d = 1) \<Longrightarrow>
         find_loop E q d c m
           = spec_first_match (map render (row E)) q
               (map (\<lambda>k. (c + d * (int k + 1)) mod numrows E) [0 ..< m])"
proof (induction m arbitrary: c)
  case 0
  show ?case by simp
next
  case (Suc m)
  define c' where "c' = (c + d) mod numrows E"
  have w: "(if c + d = - 1 then numrows E - 1 else if c + d = numrows E then 0 else c + d) = c'"
    unfolding c'_def by (rule wrap_mod[OF assms(1) Suc.prems(1,2) assms(2) Suc.prems(3)])
  have r: "0 \<le> c'" "c' < numrows E" using assms(1) by (simp_all add: c'_def)
  have ih: "find_loop E q d c' m
           = spec_first_match (map render (row E)) q
               (map (\<lambda>k. (c' + d * (int k + 1)) mod numrows E) [0 ..< m])"
    using r by (intro Suc.IH) simp_all
  have sh: "(\<lambda>k. (c' + d * (int k + 1)) mod numrows E) = (\<lambda>k. (c + d * (int (Suc k) + 1)) mod numrows E)"
  proof
    fix k
    have "(c' + d * (int k + 1)) mod numrows E = ((c + d) + d * (int k + 1)) mod numrows E"
      unfolding c'_def by (rule mod_add_left_eq)
    also have "(c + d) + d * (int k + 1) = c + d * (int (Suc k) + 1)"
      by (simp add: algebra_simps)
    finally show "(c' + d * (int k + 1)) mod numrows E = (c + d * (int (Suc k) + 1)) mod numrows E" .
  qed
  have l: "map (\<lambda>k. (c + d * (int k + 1)) mod numrows E) [0 ..< Suc m]
             = c' # map (\<lambda>k. (c' + d * (int k + 1)) mod numrows E) [0 ..< m]"
  proof -
    have "[0 ..< Suc m] = 0 # map Suc [0 ..< m]"
      by (simp only: map_Suc_upt) (simp add: upt_conv_Cons)
    then have "map (\<lambda>k. (c + d * (int k + 1)) mod numrows E) [0 ..< Suc m]
                 = (c + d * (int 0 + 1)) mod numrows E
                   # map (\<lambda>k. (c + d * (int (Suc k) + 1)) mod numrows E) [0 ..< m]"
      by (simp only: list.map map_map comp_def)
    then show ?thesis by (simp only: sh) (simp add: c'_def)
  qed
  have nth: "map render (row E) ! nat c' = render (row E ! nat c')"
    using r assms(3) by (intro nth_map) linarith
  show ?case
    by (simp only: find_loop.simps Let_def w l spec_first_match.simps nth ih)
qed

lemma visit_inj:
  fixes n lm d :: int
  assumes "0 < n" "d = 1 \<or> d = - 1" "j < nat n" "k < nat n"
          "(lm + d * (int j + 1)) mod n = (lm + d * (int k + 1)) mod n"
  shows "j = k"
proof -
  from assms(5) have "n dvd (lm + d * (int j + 1)) - (lm + d * (int k + 1))"
    by (simp only: mod_eq_dvd_iff)
  moreover have "(lm + d * (int j + 1)) - (lm + d * (int k + 1)) = d * (int j - int k)"
    by (simp add: algebra_simps)
  ultimately have "n dvd d * (int j - int k)" by simp
  with assms(2) have "n dvd int j - int k \<or> n dvd - (int j - int k)" by auto
  then have dv: "n dvd int j - int k" by (auto simp only: dvd_minus_iff)
  then have dv': "n dvd int k - int j"
    by (metis dvd_minus_iff minus_diff_eq)
  show ?thesis
  proof (rule ccontr)
    assume ne: "j \<noteq> k"
    show False
    proof (cases "k < j")
      case True
      then have "0 < int j - int k" by simp
      from zdvd_imp_le[OF dv this] assms(3) show False by linarith
    next
      case False
      with ne have "0 < int k - int j" by simp
      from zdvd_imp_le[OF dv' this] assms(4) show False by linarith
    qed
  qed
qed

lemma visit_order_props:
  fixes n lm d :: int
  assumes "0 < n" "d = 1 \<or> d = - 1"
  shows "distinct (spec_visit_order n lm d)"
    and "set (spec_visit_order n lm d) \<subseteq> {0 ..< n}"
    and "length (spec_visit_order n lm d) = nat n"
    and "spec_visit_order n lm d ! 0 = (lm + d) mod n"
proof -
  have "inj_on (\<lambda>k. (lm + d * (int k + 1)) mod n) (set [0 ..< nat n])"
    by (rule inj_onI) (use assms in \<open>auto intro: visit_inj\<close>)
  then show "distinct (spec_visit_order n lm d)"
    by (simp add: spec_visit_order_def distinct_map)
  show "set (spec_visit_order n lm d) \<subseteq> {0 ..< n}"
    using assms(1) by (auto simp: spec_visit_order_def)
  show "length (spec_visit_order n lm d) = nat n"
    by (simp add: spec_visit_order_def)
  show "spec_visit_order n lm d ! 0 = (lm + d) mod n"
    using assms(1) by (simp add: spec_visit_order_def)
qed

lemma find_restore_frame:
  "numrows (find_restore st E) = numrows E" "length (row (find_restore st E)) = length (row E)"
  "map render (row (find_restore st E)) = map render (row E)"
  "map chars (row (find_restore st E)) = map chars (row E)"
  "cx (find_restore st E) = cx E" "cy (find_restore st E) = cy E"
proof -
  have u: "\<And>f l v. f v = f (row E ! l) \<Longrightarrow> map f ((row E)[l := v]) = map f (row E)"
    by (metis list_update_id map_update)
  show "numrows (find_restore st E) = numrows E" "length (row (find_restore st E)) = length (row E)"
       "cx (find_restore st E) = cx E" "cy (find_restore st E) = cy E"
    by (simp_all add: find_restore_def Let_def split: option.split)
  show "map render (row (find_restore st E)) = map render (row E)"
    by (simp add: find_restore_def Let_def u split: option.split)
  show "map chars (row (find_restore st E)) = map chars (row E)"
    by (simp add: find_restore_def Let_def u split: option.split)
qed

lemma find_key_eq:
  "last_match (find_key (st\<lparr>saved_hl := None\<rparr>) key) = step_last st key"
  "direction (find_key (st\<lparr>saved_hl := None\<rparr>) key) = step_dir st key"
  by (auto simp: find_key_def step_last_def step_dir_def Let_def
                 ARROW_RIGHT_def ARROW_DOWN_def ARROW_LEFT_def ARROW_UP_def)

lemma spec_first_match_in:
  "spec_first_match rs q cs = Some (c, off) \<Longrightarrow> c \<in> set cs"
  by (induction cs) (auto split: option.splits)

lemma step_facts:
  assumes "- 1 \<le> last_match st" "last_match st < n" "0 < n"
  shows "step_dir st key = 1 \<or> step_dir st key = - 1"
    and "- 1 \<le> step_last st key" and "step_last st key < n"
    and "step_last st key = - 1 \<longrightarrow> step_dir st key = 1"
  using assms by (auto simp: step_dir_def step_last_def)

lemma foo_search:
  "map render (row foo_doc) = [''foo'', ''bar foo'', ''baz'']
   \<and> cy (snd (editorFindCallback ''foo'' 111 (find_static_init, foo_doc))) = 0
   \<and> last_match (fst (editorFindCallback ''foo'' 111 (find_static_init, foo_doc))) = 0
   \<and> cy (snd (editorFindCallback ''foo'' ARROW_RIGHT
                 (editorFindCallback ''foo'' 111 (find_static_init, foo_doc)))) = 1
   \<and> cx (snd (editorFindCallback ''foo'' ARROW_RIGHT
                 (editorFindCallback ''foo'' 111 (find_static_init, foo_doc)))) = 4
   \<and> cy (snd (editorFindCallback ''foo'' ARROW_RIGHT
                 (editorFindCallback ''foo'' ARROW_RIGHT
                   (editorFindCallback ''foo'' 111 (find_static_init, foo_doc))))) = 0
   \<and> cy (snd (editorFindCallback ''foo'' ARROW_LEFT
                 (editorFindCallback ''foo'' ARROW_RIGHT
                   (editorFindCallback ''foo'' 111 (find_static_init, foo_doc))))) = 0"
  by code_simp

lemma find_general:
  assumes "numrows E = int (length (row E))" "0 < numrows E"
          "- 1 \<le> last_match st" "last_match st < numrows E" "key \<noteq> 13" "key \<noteq> 27"
  shows "case spec_first_match (map render (row E)) query
                (spec_visit_order (numrows E) (step_last st key) (step_dir st key)) of
           None \<Rightarrow> last_match (fst (editorFindCallback query key (st, E))) = step_last st key
                   \<and> cy (snd (editorFindCallback query key (st, E))) = cy E
                   \<and> cx (snd (editorFindCallback query key (st, E))) = cx E
         | Some (c, off) \<Rightarrow>
             last_match (fst (editorFindCallback query key (st, E))) = c
             \<and> cy (snd (editorFindCallback query key (st, E))) = c
             \<and> cx (snd (editorFindCallback query key (st, E))) = editorRowRxToCx (row E ! nat c) (int off)"
proof -
  define E1 where "E1 = find_restore st E"
  define st3 where "st3 = find_key (st\<lparr>saved_hl := None\<rparr>) key"
  define lm where "lm = step_last st key"
  define d where "d = step_dir st key"
  note sf = step_facts[OF assms(3,4,2), of key, folded lm_def d_def]
  have n1: "numrows E1 = numrows E" and r1: "map render (row E1) = map render (row E)"
    and c1: "map chars (row E1) = map chars (row E)" and l1: "length (row E1) = length (row E)"
    and x1: "cx E1 = cx E" and y1: "cy E1 = cy E"
    by (simp_all add: E1_def find_restore_frame)
  have k3: "last_match st3 = lm" "direction st3 = d"
    by (simp_all add: st3_def lm_def d_def find_key_eq)
  have fl: "find_loop E1 query d lm (nat (numrows E1))
              = spec_first_match (map render (row E)) query (spec_visit_order (numrows E) lm d)"
    using find_loop_spec[where E=E1 and d=d and q=query and c=lm and m="nat (numrows E1)"] sf assms(1,2)
    by (simp add: n1 l1 r1 spec_visit_order_def)
  have "editorFindCallback query key (st, E) =
      (case find_loop E1 query (direction st3) (last_match st3) (nat (numrows E1)) of
           None \<Rightarrow> (st3, E1)
         | Some (current, off) \<Rightarrow>
             (let rw = row E1 ! nat current
              in (st3\<lparr>last_match := current, saved_hl_line := current,
                      saved_hl := Some (take (length (render rw)) (hl rw))\<rparr>,
                  E1\<lparr>cy := current,
                      cx := editorRowRxToCx rw (int off),
                      rowoff := numrows E1,
                      row := (row E1)[nat current := rw\<lparr>hl := memset_hl (hl rw) off HL_MATCH (strlen query)\<rparr>]\<rparr>)))"
    unfolding editorFindCallback_def E1_def st3_def using assms(5,6) by (simp add: Let_def)
  then have cb: "editorFindCallback query key (st, E) =
      (case spec_first_match (map render (row E)) query (spec_visit_order (numrows E) lm d) of
           None \<Rightarrow> (st3, E1)
         | Some (current, off) \<Rightarrow>
             (let rw = row E1 ! nat current
              in (st3\<lparr>last_match := current, saved_hl_line := current,
                      saved_hl := Some (take (length (render rw)) (hl rw))\<rparr>,
                  E1\<lparr>cy := current,
                      cx := editorRowRxToCx rw (int off),
                      rowoff := numrows E1,
                      row := (row E1)[nat current := rw\<lparr>hl := memset_hl (hl rw) off HL_MATCH (strlen query)\<rparr>]\<rparr>)))"
    by (simp only: k3 fl)
  show ?thesis
  proof (cases "spec_first_match (map render (row E)) query (spec_visit_order (numrows E) lm d)")
    case None
    with cb k3 x1 y1 show ?thesis by (simp add: lm_def d_def)
  next
    case (Some a)
    obtain c off where a: "a = (c, off)" by (cases a)
    from Some a have "c \<in> set (spec_visit_order (numrows E) lm d)"
      by (auto dest: spec_first_match_in)
    with visit_order_props(2)[OF assms(2) sf(1), of lm] have "0 \<le> c" "c < numrows E" by auto
    then have "nat c < length (row E)" using assms(1) by simp
    then have "chars (row E1 ! nat c) = chars (row E ! nat c)"
      using c1 l1 by (metis nth_map)
    then have "editorRowRxToCx (row E1 ! nat c) (int off) = editorRowRxToCx (row E ! nat c) (int off)"
      by (simp add: editorRowRxToCx_def)
    with cb Some a show ?thesis by (simp add: lm_def[symmetric] d_def[symmetric] Let_def)
  qed
qed

lemma foo_order: "spec_visit_order 3 1 (- 1) = [0, 2, 1]"
  by code_simp

lemma foo_first: "spec_first_match [''foo'', ''bar foo'', ''baz''] ''foo'' [0, 2, 1] = Some (0, 0)"
  by code_simp

lemma insert_delete_in_range:
  assumes "idx_ok (row E)" "p < length (row E)" "numrows E \<le> int (length (row E))"
          "0 \<le> k" "k \<le> int (length (chars (row E ! p)))"
  shows "map_option row_chars (insert_then_delete E p k c) = Some (row_chars E)"
proof -
  let ?cs = "chars (row E ! p)"
  from editorRowInsertChar_total[OF assms(1-3), of k c] assms(4,5) obtain rows1 where
    i: "editorRowInsertChar E p k c = Some (E\<lparr>row := rows1, dirty := dirty E + 1\<rparr>)" and
    ok1: "idx_ok rows1" and len1: "length rows1 = length (row E)" and
    c1: "map chars rows1 = (map chars (row E))[p := take (nat k) ?cs @ c # drop (nat k) ?cs]"
    by (auto simp: Let_def)
  define E1 where "E1 = E\<lparr>row := rows1, dirty := dirty E + 1\<rparr>"
  have p1: "p < length (row E1)" and n1: "numrows E1 \<le> int (length (row E1))" and o1: "idx_ok (row E1)"
    using assms(2,3) len1 ok1 by (simp_all add: E1_def)
  have cp: "chars (row E1 ! p) = take (nat k) ?cs @ c # drop (nat k) ?cs"
  proof -
    have "chars (rows1 ! p) = map chars rows1 ! p" using assms(2) len1 by simp
    also have "\<dots> = take (nat k) ?cs @ c # drop (nat k) ?cs" using assms(2) by (simp add: c1)
    finally show ?thesis by (simp add: E1_def)
  qed
  have k1: "k < int (length (chars (row E1 ! p)))"
    using assms(4,5) by (simp add: cp)
  from editorRowDelChar_total[OF o1 p1 n1 assms(4) k1] obtain rows2 where
    d: "editorRowDelChar E1 p k = Some (E1\<lparr>row := rows2, dirty := dirty E1 + 1\<rparr>)" and
    c2: "map chars rows2 = (map chars (row E1))[p := take (nat k) (chars (row E1 ! p)) @ drop (nat k + 1) (chars (row E1 ! p))]"
    by blast
  have "take (nat k) (chars (row E1 ! p)) @ drop (nat k + 1) (chars (row E1 ! p)) = ?cs"
    using assms(4,5) by (simp add: cp nat_le_iff)
  with c2 have "map chars rows2 = (map chars (row E))[p := ?cs]"
    by (simp add: E1_def c1)
  also have "\<dots> = map chars (row E)"
    by (metis list_update_id map_update)
  finally have "map chars rows2 = map chars (row E)" .
  with i d show ?thesis
    by (simp add: insert_then_delete_def row_chars_def E1_def)
qed


lemma insert_delete_out_of_range:
  assumes "idx_ok (row E)" "p < length (row E)" "numrows E \<le> int (length (row E))"
          "k < 0 \<or> int (length (chars (row E ! p))) < k"
  shows "map_option row_chars (insert_then_delete E p k c)
           = Some ((row_chars E)[p := chars (row E ! p) @ [c]])"
proof -
  let ?cs = "chars (row E ! p)"
  from editorRowInsertChar_total[OF assms(1-3), of k c] assms(4) obtain rows1 where
    i: "editorRowInsertChar E p k c = Some (E\<lparr>row := rows1, dirty := dirty E + 1\<rparr>)" and
    len1: "length rows1 = length (row E)" and
    c1: "map chars rows1 = (map chars (row E))[p := ?cs @ [c]]"
    by (auto simp: Let_def)
  define E1 where "E1 = E\<lparr>row := rows1, dirty := dirty E + 1\<rparr>"
  have cp: "chars (row E1 ! p) = ?cs @ [c]"
  proof -
    have "chars (rows1 ! p) = map chars rows1 ! p" using assms(2) len1 by simp
    also have "\<dots> = ?cs @ [c]" using assms(2) by (simp add: c1)
    finally show ?thesis by (simp add: E1_def)
  qed
  have g: "k < 0 \<or> k \<ge> int (length (chars (row E1 ! p)))"
    using assms(4) by (auto simp: cp)
  have "editorRowDelChar E1 p k = Some E1"
    using assms(2) len1 g by (simp add: editorRowDelChar_def E1_def)
  with i c1 show ?thesis
    by (simp add: insert_then_delete_def row_chars_def E1_def)
qed

lemma cstr_no_NUL: "NUL \<notin> set (cstr s)"
  unfolding cstr_def by (induction s) auto

lemma takeWhile_snoc_stop: "\<not> P x \<Longrightarrow> takeWhile P (xs @ [x]) = takeWhile P xs"
  by (induction xs) simp_all

lemma cstr_buf: "i \<le> length r \<Longrightarrow> cstr (drop i (r @ [NUL])) = cstr (drop i r)"
  by (simp add: cstr_def takeWhile_snoc_stop)

lemma take_takeWhile_bounded:
  "n \<le> length (takeWhile P xs) \<Longrightarrow> take n (takeWhile P xs) = take n xs"
proof (induction xs arbitrary: n)
  case Nil
  then show ?case by simp
next
  case (Cons x xs)
  then show ?case by (cases n) (auto split: if_splits)
qed

lemma takeWhile_covers:
  "n \<le> length xs \<Longrightarrow> \<forall>x \<in> set (take n xs). P x \<Longrightarrow> n \<le> length (takeWhile P xs)"
proof (induction xs arbitrary: n)
  case Nil
  then show ?case by simp
next
  case (Cons x xs)
  then show ?case by (cases n) auto
qed

text \<open>\<open>strncmp\<close> against the first \<open>n\<close> bytes of a C string that has at least \<open>n\<close>.\<close>

lemma strncmp0_iff:
  assumes "i \<le> length r" "n \<le> strlen b"
  shows "strncmp0 (drop i (r @ [NUL])) b n = text_at r i (take n (cstr b))"
proof -
  let ?t = "take n (cstr b)"
  let ?xs = "drop i r"
  have lt: "length ?t = n" using assms(2) by (simp add: strlen_def)
  have nn: "\<forall>x \<in> set ?t. x \<noteq> NUL"
    using cstr_no_NUL[of b] by (auto dest: in_set_takeD)
  have eq: "strncmp0 (drop i (r @ [NUL])) b n = (take n (takeWhile (\<lambda>c. c \<noteq> NUL) ?xs) = ?t)"
    using cstr_buf[OF assms(1)] by (simp add: strncmp0_def cstr_def)
  show ?thesis
  proof
    assume "strncmp0 (drop i (r @ [NUL])) b n"
    with eq have e: "take n (takeWhile (\<lambda>c. c \<noteq> NUL) ?xs) = ?t" by simp
    then have "length (take n (takeWhile (\<lambda>c. c \<noteq> NUL) ?xs)) = n" using lt by simp
    then have ge: "n \<le> length (takeWhile (\<lambda>c. c \<noteq> NUL) ?xs)" by simp
    from take_takeWhile_bounded[OF ge] e have t: "take n ?xs = ?t" by simp
    from ge have "n \<le> length ?xs"
      using length_takeWhile_le[of "\<lambda>c. c \<noteq> NUL" ?xs] by linarith
    with t lt assms(1) show "text_at r i ?t" by (simp add: text_at_def)
  next
    assume "text_at r i ?t"
    then have t: "take n ?xs = ?t" and le: "n \<le> length ?xs"
      unfolding text_at_def lt by auto
    from t nn have "\<forall>x \<in> set (take n ?xs). x \<noteq> NUL" by simp
    from takeWhile_covers[OF le this] have "n \<le> length (takeWhile (\<lambda>c. c \<noteq> NUL) ?xs)" .
    from take_takeWhile_bounded[OF this] t eq show "strncmp0 (drop i (r @ [NUL])) b n" by simp
  qed
qed

lemma klen_le: "klen_of kw \<le> strlen kw"
  by (simp add: klen_of_def)

lemma length_kw_text: "length (kw_text kw) = klen_of kw"
  using klen_le[of kw] by (simp add: kw_text_def strlen_def)

lemma kw_matches_iff:
  "i \<le> length r \<Longrightarrow>
   kw_matches (r @ [NUL]) i kw
     = (text_at r i (kw_text kw) \<and> is_separator ((r @ [NUL]) ! (i + klen_of kw)))"
  by (simp only: kw_matches_def kw_text_def strncmp0_iff[OF _ klen_le])

lemma marker_match_iff:
  "i \<le> length r \<Longrightarrow>
   strncmp0 (drop i (r @ [NUL])) (marker m) (marker_len m) = text_at r i (cstr (marker m))"
proof -
  assume i: "i \<le> length r"
  have "marker_len m = strlen (marker m)"
    by (cases m) (simp_all add: marker_len_def marker_def strlen_def cstr_def)
  then show ?thesis
    using strncmp0_iff[OF i, of "marker_len m" "marker m"] by (simp add: strlen_def)
qed

lemma match_keyword_find:
  "match_keyword kws buf i
     = map_option (\<lambda>kw. (klen_of kw, kw2_of kw)) (find (kw_matches buf i) kws)"
  by (induction kws) (simp_all add: kw_matches_def)

subsection \<open>One pass of the highlight scan\<close>

lemma length_memset_hl: "i + n \<le> length h \<Longrightarrow> length (memset_hl h i v n) = length h"
  by (simp add: memset_hl_def)

lemma nth_memset_hl:
  "i + n \<le> length h \<Longrightarrow> p < length h \<Longrightarrow>
   memset_hl h i v n ! p = (if i \<le> p \<and> p < i + n then v else h ! p)"
  by (auto simp: memset_hl_def nth_append)

lemma marker_len_cstr: "marker_len m = length (cstr (marker m))"
  by (cases m) (simp_all add: marker_len_def marker_def strlen_def cstr_def)

lemma text_at_bound: "text_at r i t \<Longrightarrow> i + length t \<le> length r"
  by (simp add: text_at_def)

lemma sl_comment_Continue: "scan_sl_comment syn r s \<noteq> Some (Continue s')"
  by (simp add: scan_sl_comment_def Let_def)

lemma sl_comment_Break:
  assumes "scan_wf r s" "sc_i s < length r" "scan_sl_comment syn r s = Some (Break s')"
  shows "length (sc_hl s') = length r"
    and "\<forall>p < length r. sc_hl s' ! p = (if sc_i s \<le> p then HL_COMMENT else sc_hl s ! p)"
    and "in_comment s' = in_comment s"
proof -
  from assms(3) have e: "s' = s\<lparr>sc_hl := memset_hl (sc_hl s) (sc_i s) HL_COMMENT (length r - sc_i s)\<rparr>"
    by (simp add: scan_sl_comment_def Let_def split: if_splits)
  have b: "sc_i s + (length r - sc_i s) \<le> length (sc_hl s)"
    using assms(1,2) by (simp add: scan_wf_def)
  show "length (sc_hl s') = length r"
    using assms(1) by (simp add: e length_memset_hl[OF b] scan_wf_def)
  show "\<forall>p < length r. sc_hl s' ! p = (if sc_i s \<le> p then HL_COMMENT else sc_hl s ! p)"
    using assms(1,2) by (auto simp: e nth_memset_hl[OF b] scan_wf_def)
  show "in_comment s' = in_comment s" by (simp add: e)
qed

lemma ml_comment_pass:
  assumes "scan_wf r s" "sc_i s < length r" "scan_ml_comment syn r s = Some k"
  shows "\<exists>s'. k = Continue s' \<and> pass_writes r s s' HL_MLCOMMENT \<and> sc_i s < sc_i s'
           \<and> in_string s' = in_string s"
proof -
  let ?i = "sc_i s" and ?h = "sc_hl s"
  let ?mcs = "multiline_comment_start syn" and ?mce = "multiline_comment_end syn"
  have il: "?i \<le> length r" and hl: "length ?h = length r" and i1: "?i < length ?h"
    using assms(1,2) by (simp_all add: scan_wf_def)
  from assms(3) have g: "marker_len ?mcs \<noteq> 0" "marker_len ?mce \<noteq> 0"
    by (auto simp: scan_ml_comment_def Let_def split: if_splits)
  show ?thesis
  proof (cases "in_comment s")
    case True
    show ?thesis
    proof (cases "strncmp0 (drop ?i (r @ [NUL])) (marker ?mce) (marker_len ?mce)")
      case m: True
      then have "text_at r ?i (cstr (marker ?mce))" by (simp only: marker_match_iff[OF il])
      then have b: "?i + marker_len ?mce \<le> length r"
        by (simp add: marker_len_cstr text_at_def)
      define s' where "s' = s\<lparr>sc_hl := memset_hl (?h[?i := HL_MLCOMMENT]) ?i HL_MLCOMMENT (marker_len ?mce),
                                sc_i := ?i + marker_len ?mce, in_comment := False, prev_sep := True\<rparr>"
      have k: "k = Continue s'"
        using assms(3) True m by (auto simp: scan_ml_comment_def Let_def s'_def split: if_splits)
      have b': "?i + marker_len ?mce \<le> length (?h[?i := HL_MLCOMMENT])" using b hl by simp
      have "pass_writes r s s' HL_MLCOMMENT"
        using b hl g(2) by (auto simp: pass_writes_def s'_def length_memset_hl[OF b'] nth_memset_hl[OF b'])
      moreover have "?i < sc_i s'" using g(2) by (simp add: s'_def)
      moreover have "in_string s' = in_string s" by (simp add: s'_def)
      ultimately show ?thesis using k by blast
    next
      case m: False
      define s' where "s' = s\<lparr>sc_hl := ?h[?i := HL_MLCOMMENT], sc_i := ?i + 1\<rparr>"
      have k: "k = Continue s'"
        using assms(3) True m by (auto simp: scan_ml_comment_def Let_def s'_def split: if_splits)
      have "pass_writes r s s' HL_MLCOMMENT"
        using assms(2) hl by (auto simp: pass_writes_def s'_def nth_list_update)
      moreover have "?i < sc_i s'" by (simp add: s'_def)
      moreover have "in_string s' = in_string s" by (simp add: s'_def)
      ultimately show ?thesis using k by blast
    qed
  next
    case False
    with assms(3) have m: "strncmp0 (drop ?i (r @ [NUL])) (marker ?mcs) (marker_len ?mcs)"
      by (auto simp: scan_ml_comment_def Let_def split: if_splits)
    then have "text_at r ?i (cstr (marker ?mcs))" by (simp only: marker_match_iff[OF il])
    then have b: "?i + marker_len ?mcs \<le> length r"
      by (simp add: marker_len_cstr text_at_def)
    define s' where "s' = s\<lparr>sc_hl := memset_hl ?h ?i HL_MLCOMMENT (marker_len ?mcs),
                              sc_i := ?i + marker_len ?mcs, in_comment := True\<rparr>"
    have k: "k = Continue s'"
      using assms(3) False m by (auto simp: scan_ml_comment_def Let_def s'_def split: if_splits)
    have b': "?i + marker_len ?mcs \<le> length ?h" using b hl by simp
    have "pass_writes r s s' HL_MLCOMMENT"
      using b hl g(1) by (auto simp: pass_writes_def s'_def length_memset_hl[OF b'] nth_memset_hl[OF b'])
    moreover have "?i < sc_i s'" using g(1) by (simp add: s'_def)
    moreover have "in_string s' = in_string s" by (simp add: s'_def)
    ultimately show ?thesis using k by blast
  qed
qed

lemma string_pass:
  assumes "scan_wf r s" "sc_i s < length r" "scan_string syn r s = Some k"
  shows "\<exists>s'. k = Continue s' \<and> pass_writes r s s' HL_STRING \<and> sc_i s < sc_i s'
           \<and> in_comment s' = in_comment s"
proof -
  let ?i = "sc_i s" and ?h = "sc_hl s"
  have hl: "length ?h = length r" using assms(1) by (simp add: scan_wf_def)
  consider (esc) "in_string s \<noteq> NUL" "r ! ?i = CHR 0x5C \<and> ?i + 1 < length r"
    | (ins) "in_string s \<noteq> NUL" "\<not> (r ! ?i = CHR 0x5C \<and> ?i + 1 < length r)"
    | (opn) "in_string s = NUL"
    by blast
  then show ?thesis
  proof cases
    case esc
    define s' where "s' = s\<lparr>sc_hl := ?h[?i := HL_STRING, ?i + 1 := HL_STRING], sc_i := ?i + 2\<rparr>"
    have k: "k = Continue s'"
      using assms(3) esc by (auto simp: scan_string_def Let_def s'_def split: if_splits)
    have "pass_writes r s s' HL_STRING"
      using esc(2) hl by (auto simp: pass_writes_def s'_def nth_list_update)
    then show ?thesis using k by (auto simp: s'_def)
  next
    case ins
    define s' where "s' = s\<lparr>sc_hl := ?h[?i := HL_STRING],
        in_string := (if r ! ?i = in_string s then NUL else in_string s),
        sc_i := ?i + 1, prev_sep := True\<rparr>"
    have k: "k = Continue s'"
      using assms(3) ins by (auto simp: scan_string_def Let_def s'_def split: if_splits)
    have "pass_writes r s s' HL_STRING"
      using assms(2) hl by (auto simp: pass_writes_def s'_def nth_list_update)
    then show ?thesis using k by (auto simp: s'_def)
  next
    case opn
    define s' where "s' = s\<lparr>in_string := r ! ?i, sc_hl := ?h[?i := HL_STRING], sc_i := ?i + 1\<rparr>"
    have k: "k = Continue s'"
      using assms(3) opn by (auto simp: scan_string_def Let_def s'_def split: if_splits)
    have "pass_writes r s s' HL_STRING"
      using assms(2) hl by (auto simp: pass_writes_def s'_def nth_list_update)
    then show ?thesis using k by (auto simp: s'_def)
  qed
qed

lemma number_pass:
  assumes "scan_wf r s" "sc_i s < length r" "scan_number syn r s = Some k"
  shows "\<exists>s'. k = Continue s' \<and> pass_writes r s s' HL_NUMBER \<and> sc_i s' = sc_i s + 1
           \<and> \<not> prev_sep s' \<and> in_comment s' = in_comment s \<and> in_string s' = in_string s"
proof -
  let ?i = "sc_i s" and ?h = "sc_hl s"
  have hl: "length ?h = length r" using assms(1) by (simp add: scan_wf_def)
  define s' where "s' = s\<lparr>sc_hl := ?h[?i := HL_NUMBER], sc_i := ?i + 1, prev_sep := False\<rparr>"
  have k: "k = Continue s'"
    using assms(3) by (simp add: scan_number_def Let_def s'_def split: if_splits)
  have "pass_writes r s s' HL_NUMBER"
    using assms(2) hl by (auto simp: pass_writes_def s'_def nth_list_update)
  then show ?thesis using k by (auto simp: s'_def)
qed

lemma scan_keyword_find:
  "scan_keyword syn r s =
     (if prev_sep s
      then map_option
             (\<lambda>kw. Continue (s\<lparr>sc_hl := memset_hl (sc_hl s) (sc_i s) (kw_class kw) (klen_of kw),
                                sc_i := sc_i s + klen_of kw, prev_sep := False\<rparr>))
             (find (kw_matches (r @ [NUL]) (sc_i s)) (keywords' syn))
      else None)"
  by (cases "find (kw_matches (r @ [NUL]) (sc_i s)) (keywords' syn)")
    (simp_all add: scan_keyword_def match_keyword_find kw_class_def Let_def)

lemma find_matches:
  "find (kw_matches buf i) kws = Some kw \<Longrightarrow> kw \<in> set kws \<and> kw_matches buf i kw"
  by (auto simp: find_Some_iff)

lemma kw_matches_bound:
  assumes "i \<le> length r" "kw_matches (r @ [NUL]) i kw"
  shows "i + klen_of kw \<le> length r"
  using assms kw_matches_iff[OF assms(1), of kw] by (simp add: text_at_def length_kw_text)

lemma keyword_pass:
  assumes "scan_wf r s" "sc_i s < length r" "scan_keyword syn r s = Some k"
  shows "\<exists>s' kw. k = Continue s' \<and> prev_sep s
           \<and> find (kw_matches (r @ [NUL]) (sc_i s)) (keywords' syn) = Some kw
           \<and> pass_writes r s s' (kw_class kw) \<and> sc_i s' = sc_i s + klen_of kw
           \<and> \<not> prev_sep s' \<and> in_comment s' = in_comment s \<and> in_string s' = in_string s"
proof -
  let ?i = "sc_i s" and ?h = "sc_hl s"
  have hl: "length ?h = length r" and il: "?i \<le> length r"
    using assms(1) by (simp_all add: scan_wf_def)
  from assms(3) have ps: "prev_sep s" by (simp add: scan_keyword_find split: if_splits)
  with assms(3) obtain kw where f: "find (kw_matches (r @ [NUL]) ?i) (keywords' syn) = Some kw"
    and k: "k = Continue (s\<lparr>sc_hl := memset_hl ?h ?i (kw_class kw) (klen_of kw),
                             sc_i := ?i + klen_of kw, prev_sep := False\<rparr>)"
    by (auto simp: scan_keyword_find)
  have b: "?i + klen_of kw \<le> length ?h"
    using kw_matches_bound[OF il] find_matches[OF f] hl by simp
  have "pass_writes r s (s\<lparr>sc_hl := memset_hl ?h ?i (kw_class kw) (klen_of kw),
                             sc_i := ?i + klen_of kw, prev_sep := False\<rparr>) (kw_class kw)"
    using b hl by (auto simp: pass_writes_def length_memset_hl[OF b] nth_memset_hl[OF b])
  then show ?thesis using k ps f by auto
qed

subsection \<open>The keyword step\<close>

lemma scan_body_keyword_step:
  assumes "at_keyword_step syn r s"
  shows "scan_body syn r s =
           (case find (kw_matches (r @ [NUL]) (sc_i s)) (keywords' syn) of
              None \<Rightarrow> scan_advance r s
            | Some kw \<Rightarrow>
                Continue (s\<lparr>sc_hl := memset_hl (sc_hl s) (sc_i s) (kw_class kw) (klen_of kw),
                            sc_i := sc_i s + klen_of kw, prev_sep := False\<rparr>))"
  using assms
  by (cases "find (kw_matches (r @ [NUL]) (sc_i s)) (keywords' syn)")
     (simp_all add: at_keyword_step_def scan_body_def scan_keyword_find)

lemma find_first:
  "find P xs = Some x \<Longrightarrow> \<exists>pre post. xs = pre @ x # post \<and> (\<forall>k \<in> set pre. \<not> P k) \<and> P x"
proof (induction xs)
  case Nil
  then show ?case by simp
next
  case (Cons a xs)
  show ?case
  proof (cases "P a")
    case True
    with Cons.prems have "a = x" by simp
    with True have "a # xs = [] @ x # xs \<and> (\<forall>k \<in> set []. \<not> P k) \<and> P x" by simp
    then show ?thesis by blast
  next
    case False
    with Cons.prems have "find P xs = Some x" by simp
    from Cons.IH[OF this] obtain pre post where
      "xs = pre @ x # post" "\<forall>k \<in> set pre. \<not> P k" "P x" by blast
    with False have "a # xs = (a # pre) @ x # post \<and> (\<forall>k \<in> set (a # pre). \<not> P k) \<and> P x"
      by simp
    then show ?thesis by blast
  qed
qed

lemma find_None_set: "(find P xs = None) = (\<forall>k \<in> set xs. \<not> P k)"
  by (induction xs) simp_all

lemma text_at_nth:
  assumes "text_at r i t" "j < length t"
  shows "r ! (i + j) = t ! j"
proof -
  from assms(1) have b: "i + length t \<le> length r" and e: "take (length t) (drop i r) = t"
    by (simp_all add: text_at_def)
  have "t ! j = take (length t) (drop i r) ! j" by (simp only: e)
  also have "\<dots> = r ! (i + j)" using assms(2) b by simp
  finally show ?thesis by simp
qed

lemma text_at_unique:
  assumes "text_at r i t" "text_at r i u" "length t = length u"
  shows "t = u"
proof -
  from assms(1) have "t = take (length t) (drop i r)" by (simp add: text_at_def)
  also have "\<dots> = take (length u) (drop i r)" by (simp only: assms(3))
  also from assms(2) have "\<dots> = u" by (simp add: text_at_def)
  finally show ?thesis .
qed

lemma sepfree_not_longer:
  assumes il: "i \<le> length r"
    and m1: "kw_matches (r @ [NUL]) i k1" and m2: "kw_matches (r @ [NUL]) i k2"
    and sf: "\<forall>c \<in> set (kw_text k2). \<not> is_separator c"
  shows "\<not> klen_of k1 < klen_of k2"
proof
  assume lt: "klen_of k1 < klen_of k2"
  from m1 have s1: "is_separator ((r @ [NUL]) ! (i + klen_of k1))"
    by (simp only: kw_matches_iff[OF il])
  from m2 have t2: "text_at r i (kw_text k2)" by (simp only: kw_matches_iff[OF il])
  have j: "klen_of k1 < length (kw_text k2)" using lt by (simp add: length_kw_text)
  from t2 have "i + klen_of k2 \<le> length r" by (simp add: text_at_def length_kw_text)
  with lt have "i + klen_of k1 < length r" by simp
  then have "(r @ [NUL]) ! (i + klen_of k1) = r ! (i + klen_of k1)" by (simp add: nth_append)
  also have "\<dots> = kw_text k2 ! klen_of k1" by (rule text_at_nth[OF t2 j])
  finally have "is_separator (kw_text k2 ! klen_of k1)" using s1 by simp
  moreover have "kw_text k2 ! klen_of k1 \<in> set (kw_text k2)" using j by simp
  ultimately show False using sf by blast
qed

lemma sepfree_same_text:
  assumes il: "i \<le> length r"
    and m1: "kw_matches (r @ [NUL]) i k1" and m2: "kw_matches (r @ [NUL]) i k2"
    and sf1: "\<forall>c \<in> set (kw_text k1). \<not> is_separator c"
    and sf2: "\<forall>c \<in> set (kw_text k2). \<not> is_separator c"
  shows "kw_text k1 = kw_text k2"
proof -
  have "klen_of k1 = klen_of k2"
    using sepfree_not_longer[OF il m1 m2 sf2] sepfree_not_longer[OF il m2 m1 sf1] by simp
  then have "length (kw_text k1) = length (kw_text k2)" by (simp add: length_kw_text)
  moreover from m1 have "text_at r i (kw_text k1)" by (simp only: kw_matches_iff[OF il])
  moreover from m2 have "text_at r i (kw_text k2)" by (simp only: kw_matches_iff[OF il])
  ultimately show ?thesis by (rule text_at_unique[rotated 2])
qed

lemma fold_longest_in:
  "fold (\<lambda>a b. if klen_of b < klen_of a then a else b) ks k \<in> set (k # ks)"
proof (induction ks arbitrary: k)
  case Nil
  show ?case by simp
next
  case (Cons a ks)
  have "fold (\<lambda>a b. if klen_of b < klen_of a then a else b) ks
          (if klen_of k < klen_of a then a else k) \<in> set ((if klen_of k < klen_of a then a else k) # ks)"
    by (rule Cons.IH)
  then show ?case by (auto split: if_splits)
qed

lemma spec_longest_matches:
  assumes "spec_longest_keyword kws buf i = Some k"
  shows "k \<in> set kws \<and> kw_matches buf i k"
proof -
  from assms obtain a ks where f: "filter (kw_matches buf i) kws = a # ks"
    and k: "k = fold (\<lambda>a b. if klen_of b < klen_of a then a else b) ks a"
    by (auto simp: spec_longest_keyword_def split: list.splits)
  have "k \<in> set (a # ks)" unfolding k by (rule fold_longest_in)
  then have "k \<in> set (filter (kw_matches buf i) kws)" by (simp only: f)
  then show ?thesis by simp
qed

lemma spec_longest_None:
  "(spec_longest_keyword kws buf i = None) = (find (kw_matches buf i) kws = None)"
proof -
  have "(spec_longest_keyword kws buf i = None) = (filter (kw_matches buf i) kws = [])"
    by (simp add: spec_longest_keyword_def split: list.splits)
  also have "\<dots> = (\<forall>k \<in> set kws. \<not> kw_matches buf i k)" by (simp add: filter_empty_conv)
  finally show ?thesis by (simp only: find_None_set)
qed

lemma sepfree_longest_is_first:
  assumes il: "i \<le> length r"
    and sf: "\<forall>k \<in> set kws. \<forall>c \<in> set (kw_text k). \<not> is_separator c"
  shows "map_option kw_text (spec_longest_keyword kws (r @ [NUL]) i)
           = map_option kw_text (find (kw_matches (r @ [NUL]) i) kws)"
proof (cases "find (kw_matches (r @ [NUL]) i) kws")
  case None
  then show ?thesis by (simp add: spec_longest_None)
next
  case (Some kw)
  then have "spec_longest_keyword kws (r @ [NUL]) i \<noteq> None" by (simp add: spec_longest_None)
  then obtain k where k: "spec_longest_keyword kws (r @ [NUL]) i = Some k" by blast
  from spec_longest_matches[OF k] have km: "k \<in> set kws" "kw_matches (r @ [NUL]) i k" by simp_all
  from find_matches[OF Some] have wm: "kw \<in> set kws" "kw_matches (r @ [NUL]) i kw" by simp_all
  have "kw_text k = kw_text kw"
    using sepfree_same_text[OF il km(2) wm(2)] sf km(1) wm(1) by blast
  then show ?thesis by (simp add: k Some)
qed

subsection \<open>The loop of the highlight scan\<close>

lemma scan_body_cases [consumes 2, case_names comment mlcomment string number keyword advance]:
  assumes wf: "scan_wf r s" and lt: "sc_i s < length r"
  obtains
    (comment) s' where "scan_body syn r s = Break s'" "scan_sl_comment syn r s = Some (Break s')"
  | (mlcomment) s' where "scan_body syn r s = Continue s'" "scan_sl_comment syn r s = None"
      "scan_ml_comment syn r s = Some (Continue s')"
  | (string) s' where "scan_body syn r s = Continue s'" "scan_sl_comment syn r s = None"
      "scan_ml_comment syn r s = None" "scan_string syn r s = Some (Continue s')"
  | (number) s' where "scan_body syn r s = Continue s'" "scan_sl_comment syn r s = None"
      "scan_ml_comment syn r s = None" "scan_string syn r s = None"
      "scan_number syn r s = Some (Continue s')"
  | (keyword) s' where "scan_body syn r s = Continue s'" "scan_sl_comment syn r s = None"
      "scan_ml_comment syn r s = None" "scan_string syn r s = None"
      "scan_number syn r s = None" "scan_keyword syn r s = Some (Continue s')"
  | (advance) "scan_body syn r s = scan_advance r s" "scan_sl_comment syn r s = None"
      "scan_ml_comment syn r s = None" "scan_string syn r s = None"
      "scan_number syn r s = None" "scan_keyword syn r s = None"
proof (cases "scan_sl_comment syn r s")
  case (Some k)
  then obtain s' where "k = Break s'"
    by (cases k) (simp_all add: sl_comment_Continue)
  with Some show ?thesis by (intro comment[of s']) (simp_all add: scan_body_def)
next
  case n1: None
  show ?thesis
  proof (cases "scan_ml_comment syn r s")
    case (Some k)
    from ml_comment_pass[OF wf lt Some] obtain s' where "k = Continue s'" by blast
    with Some n1 show ?thesis by (intro mlcomment[of s']) (simp_all add: scan_body_def)
  next
    case n2: None
    show ?thesis
    proof (cases "scan_string syn r s")
      case (Some k)
      from string_pass[OF wf lt Some] obtain s' where "k = Continue s'" by blast
      with Some n1 n2 show ?thesis by (intro string[of s']) (simp_all add: scan_body_def)
    next
      case n3: None
      show ?thesis
      proof (cases "scan_number syn r s")
        case (Some k)
        from number_pass[OF wf lt Some] obtain s' where "k = Continue s'" by blast
        with Some n1 n2 n3 show ?thesis by (intro number[of s']) (simp_all add: scan_body_def)
      next
        case n4: None
        show ?thesis
        proof (cases "scan_keyword syn r s")
          case (Some k)
          from keyword_pass[OF wf lt Some] obtain s' where "k = Continue s'" by blast
          with Some n1 n2 n3 n4 show ?thesis
            by (intro keyword[of s']) (simp_all add: scan_body_def)
        next
          case None
          with n1 n2 n3 n4 show ?thesis by (intro advance) (simp_all add: scan_body_def)
        qed
      qed
    qed
  qed
qed

lemma advance_pass:
  assumes "scan_wf r s" "sc_i s < length r" "scan_advance r s = Continue s'"
  shows "pass_writes r s s' (sc_hl s ! sc_i s)" "sc_i s' = sc_i s + 1"
    "prev_sep s' = is_separator (r ! sc_i s)" "sc_hl s' = sc_hl s"
    "in_comment s' = in_comment s" "in_string s' = in_string s"
  using assms by (auto simp: scan_advance_def pass_writes_def scan_wf_def le_less_Suc_eq)

lemma scan_pass_summary:
  assumes wf: "scan_wf r s" and lt: "sc_i s < length r"
    and body: "scan_body syn r s = Continue s'"
  shows "\<exists>v. pass_writes r s s' v
     \<and> ((v = HL_MLCOMMENT \<or> v = HL_STRING) \<and> sc_i s < sc_i s'
        \<or> v = HL_NUMBER \<and> \<not> prev_sep s'
        \<or> (\<exists>kw. prev_sep s \<and> find (kw_matches (r @ [NUL]) (sc_i s)) (keywords' syn) = Some kw
              \<and> v = kw_class kw \<and> sc_i s' = sc_i s + klen_of kw \<and> \<not> prev_sep s')
        \<or> v = sc_hl s ! sc_i s \<and> sc_i s' = sc_i s + 1
            \<and> prev_sep s' = is_separator (r ! sc_i s))"
  using wf lt
proof (cases rule: scan_body_cases[where syn = syn])
  case (comment u)
  with body show ?thesis by simp
next
  case (mlcomment u)
  with body have u: "u = s'" by simp
  from ml_comment_pass[OF wf lt mlcomment(3)] u
  have "pass_writes r s s' HL_MLCOMMENT" "sc_i s < sc_i s'" by auto
  then show ?thesis by blast
next
  case (string u)
  with body have u: "u = s'" by simp
  from string_pass[OF wf lt string(4)] u
  have "pass_writes r s s' HL_STRING" "sc_i s < sc_i s'" by auto
  then show ?thesis by blast
next
  case (number u)
  with body have u: "u = s'" by simp
  from number_pass[OF wf lt number(5)] u
  have "pass_writes r s s' HL_NUMBER" "\<not> prev_sep s'" by auto
  then show ?thesis by blast
next
  case (keyword u)
  with body have u: "u = s'" by simp
  from keyword_pass[OF wf lt keyword(6)] u
  obtain kw where "prev_sep s" "find (kw_matches (r @ [NUL]) (sc_i s)) (keywords' syn) = Some kw"
    "pass_writes r s s' (kw_class kw)" "sc_i s' = sc_i s + klen_of kw" "\<not> prev_sep s'"
    by auto
  then show ?thesis by blast
next
  case advance
  with body have a: "scan_advance r s = Continue s'" by simp
  from advance_pass[OF wf lt a] show ?thesis by blast
qed

lemma scan_wf_init: "scan_wf r (scan_init r seed)"
  by (simp add: scan_wf_def scan_init_def)

lemma scan_wf_pass:
  assumes "scan_wf r s" "sc_i s < length r" "scan_body syn r s = Continue s'"
  shows "scan_wf r s'"
  using scan_pass_summary[OF assms] by (auto simp: pass_writes_def scan_wf_def)

lemma scan_pass_below:
  assumes "scan_wf r s" "sc_i s < length r" "scan_body syn r s = Continue s'"
  shows "sc_i s \<le> sc_i s'" "\<forall>p < sc_i s. sc_hl s' ! p = sc_hl s ! p"
  using scan_pass_summary[OF assms] assms(2) by (auto simp: pass_writes_def)

lemma scan_break:
  assumes "scan_wf r s" "sc_i s < length r" "scan_body syn r s = Break s'"
  shows "length (sc_hl s') = length r"
    and "\<forall>p < length r. sc_hl s' ! p = (if sc_i s \<le> p then HL_COMMENT else sc_hl s ! p)"
    and "in_comment s' = in_comment s"
proof -
  have "scan_sl_comment syn r s = Some (Break s')"
    using assms(1,2)
  proof (cases rule: scan_body_cases[where syn = syn])
    case (comment u)
    with assms(3) show ?thesis by simp
  next
    case advance
    with assms(3) show ?thesis by (simp add: scan_advance_def)
  qed (use assms(3) in simp_all)
  from sl_comment_Break[OF assms(1,2) this]
  show "length (sc_hl s') = length r"
    and "\<forall>p < length r. sc_hl s' ! p = (if sc_i s \<le> p then HL_COMMENT else sc_hl s ! p)"
    and "in_comment s' = in_comment s" by blast+
qed

lemma scan_loop_rule:
  assumes init: "scan_wf r s" "I s"
    and step: "\<And>s s'. scan_wf r s \<Longrightarrow> I s \<Longrightarrow> sc_i s < length r
                 \<Longrightarrow> scan_body syn r s = Continue s' \<Longrightarrow> I s'"
    and brk: "\<And>s s'. scan_wf r s \<Longrightarrow> I s \<Longrightarrow> sc_i s < length r
                 \<Longrightarrow> scan_body syn r s = Break s' \<Longrightarrow> Q s'"
    and fin: "\<And>s. scan_wf r s \<Longrightarrow> I s \<Longrightarrow> sc_i s = length r \<Longrightarrow> Q s"
  shows "Q (scan_loop syn r s)"
  using assms
proof (induction syn r s rule: scan_loop.induct)
  case (1 syn r s)
  note wf = "1.prems"(1) and i = "1.prems"(2) and step = "1.prems"(3)
    and brk = "1.prems"(4) and fin = "1.prems"(5)
  show ?case
  proof (cases "sc_i s < length r")
    case False
    with wf have "sc_i s = length r" by (simp add: scan_wf_def)
    from fin[OF wf i this] False show ?thesis by (simp add: scan_loop.simps[of syn r s])
  next
    case True
    show ?thesis
    proof (cases "scan_body syn r s")
      case (Break s')
      from brk[OF wf i True Break] True Break show ?thesis
        by (simp add: scan_loop.simps[of syn r s])
    next
      case (Continue s')
      have "Q (scan_loop syn r s')"
        by (rule "1.IH"[OF True Continue scan_wf_pass[OF wf True Continue]
              step[OF wf i True Continue] step brk fin])
      with True Continue show ?thesis by (simp add: scan_loop.simps[of syn r s])
    qed
  qed
qed

lemma scan_row_init: "scan_row syn r seed = scan_loop syn r (scan_init r seed)"
  by (simp add: scan_row_def scan_init_def)

lemma scan_reach_wf: "scan_reach syn r s t \<Longrightarrow> scan_wf r s \<Longrightarrow> scan_wf r t"
  by (induction rule: scan_reach.induct) (auto intro: scan_wf_pass)

lemma scan_reach_loop: "scan_reach syn r s t \<Longrightarrow> scan_loop syn r t = scan_loop syn r s"
proof (induction rule: scan_reach.induct)
  case start
  show ?case by simp
next
  case (pass t u)
  have "scan_loop syn r t = scan_loop syn r u"
    using pass(2,3) by (simp add: scan_loop.simps[of syn r t])
  with pass.IH show ?case by simp
qed

lemma scan_reach_first:
  assumes "sc_i s < length r" "scan_body syn r s = Continue u" "scan_reach syn r u t"
  shows "scan_reach syn r s t"
  using assms(3)
proof (induction rule: scan_reach.induct)
  case start
  show ?case by (rule scan_reach.pass[OF scan_reach.start assms(1,2)])
next
  case (pass t v)
  show ?case by (rule scan_reach.pass[OF pass.IH pass(2,3)])
qed

lemma scan_steps_reach: "scan_steps syn r s n = Some t \<Longrightarrow> scan_reach syn r s t"
proof (induction n arbitrary: s)
  case 0
  then show ?case by (simp add: scan_reach.start)
next
  case (Suc n)
  from Suc.prems have lt: "sc_i s < length r" by (simp split: if_splits)
  with Suc.prems obtain u where b: "scan_body syn r s = Continue u"
    and st: "scan_steps syn r u n = Some t"
    by (cases "scan_body syn r s") simp_all
  show ?case by (rule scan_reach_first[OF lt b Suc.IH[OF st]])
qed

lemma length_scan_loop:
  assumes "scan_wf r s"
  shows "length (sc_hl (scan_loop syn r s)) = length r"
proof (rule scan_loop_rule[where I = "\<lambda>s. True" and Q = "\<lambda>s. length (sc_hl s) = length r", OF assms])
  fix s s' assume "scan_wf r s" "sc_i s < length r" "scan_body syn r s = Break s'"
  then show "length (sc_hl s') = length r" by (rule scan_break(1))
qed (simp_all add: scan_wf_def)

lemma scan_loop_below:
  assumes wf: "scan_wf r s" and p: "p < sc_i s"
  shows "sc_hl (scan_loop syn r s) ! p = sc_hl s ! p"
proof (rule scan_loop_rule[where I = "\<lambda>t. p < sc_i t \<and> sc_hl t ! p = sc_hl s ! p"
      and Q = "\<lambda>t. sc_hl t ! p = sc_hl s ! p", OF wf])
  show "p < sc_i s \<and> sc_hl s ! p = sc_hl s ! p" using p by simp
next
  fix t t' assume a: "scan_wf r t" "p < sc_i t \<and> sc_hl t ! p = sc_hl s ! p" "sc_i t < length r"
    "scan_body syn r t = Continue t'"
  from scan_pass_below[OF a(1,3,4)] a(2)
  show "p < sc_i t' \<and> sc_hl t' ! p = sc_hl s ! p" by auto
next
  fix t t' assume a: "scan_wf r t" "p < sc_i t \<and> sc_hl t ! p = sc_hl s ! p" "sc_i t < length r"
    "scan_body syn r t = Break t'"
  from scan_break(2)[OF a(1,3,4)] a(2,3)
  show "sc_hl t' ! p = sc_hl s ! p" by auto
next
  fix t assume "p < sc_i t \<and> sc_hl t ! p = sc_hl s ! p"
  then show "sc_hl t ! p = sc_hl s ! p" by simp
qed

lemma is_separator_NUL: "is_separator NUL"
  by (simp add: is_separator_def)

lemma text_at_suffix:
  assumes "drop i r = t" "i \<le> length r"
  shows "text_at r i t" "i + length t = length r"
proof -
  from assms have l: "length t = length r - i" by auto
  then show "i + length t = length r" using assms(2) by simp
  then show "text_at r i t" using assms(1) l by (simp add: text_at_def)
qed

lemma keyword_step_result:
  assumes reach: "scan_reach syn r (scan_init r seed) s" and ks: "at_keyword_step syn r s"
    and f: "find (kw_matches (r @ [NUL]) (sc_i s)) (keywords' syn) = Some k"
  shows "scan_row syn r seed
           = scan_loop syn r (s\<lparr>sc_hl := memset_hl (sc_hl s) (sc_i s) (kw_class k) (klen_of k),
                                sc_i := sc_i s + klen_of k, prev_sep := False\<rparr>)"
    and "scan_wf r (s\<lparr>sc_hl := memset_hl (sc_hl s) (sc_i s) (kw_class k) (klen_of k),
                      sc_i := sc_i s + klen_of k, prev_sep := False\<rparr>)"
    and "\<forall>p. sc_i s \<le> p \<and> p < sc_i s + klen_of k
           \<longrightarrow> sc_hl (scan_row syn r seed) ! p = kw_class k"
proof -
  let ?s' = "s\<lparr>sc_hl := memset_hl (sc_hl s) (sc_i s) (kw_class k) (klen_of k),
                sc_i := sc_i s + klen_of k, prev_sep := False\<rparr>"
  from ks have lt: "sc_i s < length r" by (simp add: at_keyword_step_def)
  have wf: "scan_wf r s" by (rule scan_reach_wf[OF reach scan_wf_init])
  have b: "scan_body syn r s = Continue ?s'"
    using scan_body_keyword_step[OF ks] f by simp
  have "scan_row syn r seed = scan_loop syn r s"
    using scan_reach_loop[OF reach] by (simp add: scan_row_init)
  also have "\<dots> = scan_loop syn r ?s'"
    using lt b by (simp add: scan_loop.simps[of syn r s])
  finally show row: "scan_row syn r seed = scan_loop syn r ?s'" .
  show wf': "scan_wf r ?s'" by (rule scan_wf_pass[OF wf lt b])
  have m: "kw_matches (r @ [NUL]) (sc_i s) k" using find_matches[OF f] by simp
  have bb: "sc_i s + klen_of k \<le> length (sc_hl s)"
    using kw_matches_bound[OF _ m] lt wf by (simp add: scan_wf_def)
  show "\<forall>p. sc_i s \<le> p \<and> p < sc_i s + klen_of k
           \<longrightarrow> sc_hl (scan_row syn r seed) ! p = kw_class k"
  proof (intro allI impI)
    fix p assume p: "sc_i s \<le> p \<and> p < sc_i s + klen_of k"
    then have "p < sc_i ?s'" by simp
    from scan_loop_below[OF wf' this, of syn]
    have "sc_hl (scan_row syn r seed) ! p = memset_hl (sc_hl s) (sc_i s) (kw_class k) (klen_of k) ! p"
      by (simp add: row)
    also have "\<dots> = kw_class k" using nth_memset_hl[OF bb, of p] p bb by simp
    finally show "sc_hl (scan_row syn r seed) ! p = kw_class k" .
  qed
qed

subsection \<open>Where the scan marks keywords\<close>







subsection \<open>Multi-line comments and the cascade over the rows\<close>









section \<open>The claims\<close>

subsection \<open>C3: splitting a row and joining the halves\<close>

text \<open>
  Claim C3. In a document, with the cursor on a row \<open>cy\<close> and at a column \<open>cx\<close> from 0 to
  the length of its chars, \<open>editorInsertNewline\<close> splits the row at \<open>cx\<close> into rows \<open>cy\<close>
  and \<open>cy + 1\<close> and puts the cursor at the start of the second; \<open>editorDelChar\<close> there
  (backspace at column 0) joins the two again, so that the chars of every row are what
  they were, and leaves the cursor on row \<open>cy\<close> at the join point, the length of the
  upper half, which is \<open>cx\<close>.
\<close>

theorem C3_split_then_join:
  assumes "wf_doc E" "0 \<le> cy E" "cy E < numrows E"
          "0 \<le> cx E" "cx E \<le> int (length (chars (row E ! nat (cy E))))"
  shows "\<exists>E1 E2. editorInsertNewline E = Some E1 \<and> editorDelChar E1 = Some E2
           \<and> split_then_join E = Some E2
           \<and> cy E1 = cy E + 1 \<and> cx E1 = 0
           \<and> row_chars E1 = take (nat (cy E)) (row_chars E)
                 @ take (nat (cx E)) (chars (row E ! nat (cy E)))
                 # drop (nat (cx E)) (chars (row E ! nat (cy E)))
                 # drop (Suc (nat (cy E))) (row_chars E)
           \<and> row_chars E2 = row_chars E
           \<and> cy E2 = cy E
           \<and> cx E2 = int (length (chars (row E1 ! nat (cy E))))
           \<and> cx E2 = cx E"
proof -
  define y where "y = nat (cy E)"
  define x where "x = nat (cx E)"
  define cs where "cs = chars (row E ! y)"
  from assms have yl: "y < length (row E)" by (simp add: wf_doc_def y_def)
  from assms(4,5) have xl: "x \<le> length cs" by (simp add: x_def cs_def y_def nat_le_iff)
  from editorInsertNewline_total[OF assms] obtain rows1 where
    s: "editorInsertNewline E
          = Some (E\<lparr>row := rows1, numrows := numrows E + 1, dirty := dirty E + 1,
                    cy := cy E + 1, cx := 0\<rparr>)" and
    ok1: "idx_ok rows1" and len1: "length rows1 = Suc (length (row E))" and
    c1: "map chars rows1 = take y (row_chars E) @ take x cs # drop x cs # drop (Suc y) (row_chars E)"
    unfolding y_def x_def cs_def by blast
  define E1 where "E1 = E\<lparr>row := rows1, numrows := numrows E + 1, dirty := dirty E + 1,
                    cy := cy E + 1, cx := 0\<rparr>"
  have w1: "wf_doc E1" "cx E1 = 0" "0 < cy E1" "cy E1 < numrows E1"
    using assms(1,2,3) ok1 len1 by (simp_all add: E1_def wf_doc_def)
  have ly: "length (take y (row_chars E)) = y"
    using yl by (simp add: row_chars_def)
  have n1: "nat (cy E1 - 1) = y" "nat (cy E1) = Suc y"
    using assms(2) by (simp_all add: E1_def y_def)
  have r1: "row_chars E1 = take y (row_chars E) @ take x cs # drop x cs # drop (Suc y) (row_chars E)"
    by (simp add: row_chars_def E1_def c1)
  have cy1: "chars (row E1 ! y) = take x cs"
  proof -
    have "chars (row E1 ! y) = row_chars E1 ! y"
      using yl len1 by (simp add: row_chars_def E1_def)
    also have "\<dots> = take x cs" using ly by (simp add: r1 nth_append)
    finally show ?thesis .
  qed
  have cy2: "chars (row E1 ! Suc y) = drop x cs"
  proof -
    have "chars (row E1 ! Suc y) = row_chars E1 ! Suc y"
      using yl len1 by (simp add: row_chars_def E1_def)
    also have "\<dots> = drop x cs" using ly by (simp add: r1 nth_append)
    finally show ?thesis .
  qed
  from editorDelChar_join[OF w1] obtain rows2 where
    j: "editorDelChar E1
             = Some (E1\<lparr>row := rows2, numrows := numrows E1 - 1, dirty := dirty E1 + 2,
                       cx := int (length (chars (row E1 ! y))), cy := cy E1 - 1\<rparr>)" and
    c2: "map chars rows2 = take y (row_chars E1) @ (chars (row E1 ! y) @ chars (row E1 ! Suc y))
                 # drop (Suc (Suc y)) (row_chars E1)"
    unfolding n1 by blast
  have "take y (row_chars E1) = take y (row_chars E)"
    using ly by (simp add: r1)
  moreover have "drop (Suc (Suc y)) (row_chars E1) = drop (Suc y) (row_chars E)"
    using ly by (simp add: r1)
  ultimately have "map chars rows2 = take y (row_chars E) @ cs # drop (Suc y) (row_chars E)"
    using c2 by (simp add: cy1 cy2)
  also have "\<dots> = row_chars E"
    using yl id_take_nth_drop[of y "row_chars E"] by (simp add: cs_def row_chars_def)
  finally have c: "map chars rows2 = row_chars E" .
  define E2 where "E2 = E1\<lparr>row := rows2, numrows := numrows E1 - 1, dirty := dirty E1 + 2,
                       cx := int (length (chars (row E1 ! y))), cy := cy E1 - 1\<rparr>"
  have "editorInsertNewline E = Some E1" using s by (simp add: E1_def)
  moreover have "editorDelChar E1 = Some E2" using j by (simp add: E2_def)
  ultimately show ?thesis
    using c r1 cy1 xl
    unfolding y_def[symmetric] x_def[symmetric] cs_def[symmetric]
    by (intro exI[of _ E1] exI[of _ E2])
       (simp add: split_then_join_def E2_def row_chars_def, simp add: E1_def x_def assms(4))
qed

theorem C3_witness:
  "\<exists>E1 E2. editorInsertNewline ((plain_doc [''one'', ''twothree''])\<lparr>cy := 1, cx := 3\<rparr>) = Some E1
      \<and> editorDelChar E1 = Some E2
      \<and> split_then_join ((plain_doc [''one'', ''twothree''])\<lparr>cy := 1, cx := 3\<rparr>) = Some E2
      \<and> cy E1 = 2 \<and> cx E1 = 0
      \<and> row_chars E1 = [''one'', ''two'', ''three'']
      \<and> row_chars E2 = [''one'', ''twothree'']
      \<and> cy E2 = 1
      \<and> cx E2 = int (length (chars (row E1 ! 1)))
      \<and> cx E2 = 3"
  using C3_split_then_join[of "(plain_doc [''one'', ''twothree''])\<lparr>cy := 1, cx := 3\<rparr>"]
  by (simp add: plain_doc_def plain_row_def initEditor_def idx_ok_def wf_doc_def row_chars_def)

subsection \<open>C5: tabs in the render buffer, and the two column mappings\<close>

text \<open>
  Claim C5. After \<open>editorUpdateRow\<close>, a row whose chars are all tabs has a render of
  \<open>KILO_TAB_STOP\<close> (8) times as many bytes; and for every row and every column \<open>x\<close>
  from 0 to the length of its chars, \<open>editorRowRxToCx\<close> maps the render column that
  \<open>editorRowCxToRx\<close> gives for \<open>x\<close> back to \<open>x\<close>.
\<close>

theorem C5_tabs_render_and_column_roundtrip:
  "(idx_ok (row E) \<and> p < length (row E) \<and> numrows E \<le> int (length (row E))
      \<and> set (chars (row E ! p)) \<subseteq> {TAB}
    \<longrightarrow> (\<exists>E'. editorUpdateRow E p = Some E'
            \<and> length (render (row E' ! p)) = KILO_TAB_STOP * length (chars (row E' ! p))))
   \<and> (0 \<le> x \<and> x \<le> int (length (chars rw))
    \<longrightarrow> editorRowRxToCx rw (editorRowCxToRx rw x) = x)"
proof (intro conjI impI)
  assume a: "idx_ok (row E) \<and> p < length (row E) \<and> numrows E \<le> int (length (row E))
      \<and> set (chars (row E ! p)) \<subseteq> {TAB}"
  then obtain rows' where
    u: "editorUpdateRow E p = Some (E\<lparr>row := rows'\<rparr>)" and
    ch: "map chars rows' = map chars (row E)" and
    rn: "map render rows' = (map render (row E))[p := render_loop (chars (row E ! p)) []]"
    using editorUpdateRow_total[of E p] by blast
  from ch have len: "length rows' = length (row E)" by (metis length_map)
  from ch a len have c: "chars (rows' ! p) = chars (row E ! p)"
    by (metis nth_map)
  from rn a len have r: "render (rows' ! p) = render_loop (chars (row E ! p)) []"
    by (metis length_map nth_list_update_eq nth_map)
  from a have "length (render_loop (chars (row E ! p)) []) = KILO_TAB_STOP * length (chars (row E ! p))"
    using length_render_tabs[of "chars (row E ! p)" "[]"] by simp
  with u c r show "\<exists>E'. editorUpdateRow E p = Some E'
            \<and> length (render (row E' ! p)) = KILO_TAB_STOP * length (chars (row E' ! p))"
    by simp
next
  assume b: "0 \<le> x \<and> x \<le> int (length (chars rw))"
  then have "nat x \<le> length (chars rw)" by (simp add: nat_le_iff)
  from rx_to_cx_loop_roundtrip[OF _ this, of 0 0] b
  show "editorRowRxToCx rw (editorRowCxToRx rw x) = x"
    by (simp add: editorRowRxToCx_def editorRowCxToRx_def)
qed

theorem C5_witness:
  "(\<exists>E'. editorUpdateRow (plain_doc [[TAB, TAB]]) 0 = Some E'
            \<and> length (render (row E' ! 0)) = KILO_TAB_STOP * length (chars (row E' ! 0)))
   \<and> editorRowRxToCx (plain_row 0 [CHR ''a'', TAB, CHR ''b'']) (editorRowCxToRx (plain_row 0 [CHR ''a'', TAB, CHR ''b'']) 2) = 2"
  using C5_tabs_render_and_column_roundtrip[of "plain_doc [[TAB, TAB]]" 0 2 "plain_row 0 [CHR ''a'', TAB, CHR ''b'']"]
  by (simp add: plain_doc_def plain_row_def initEditor_def idx_ok_def)

subsection \<open>C8: inserting a character and deleting it again\<close>

text \<open>
  Claim C8, as amended. For every row and every position \<open>k\<close>, \<open>editorRowInsertChar\<close> at
  \<open>k\<close> followed by \<open>editorRowDelChar\<close> at \<open>k\<close> returns, and: when \<open>k\<close> is from 0 to the
  length of the row's chars, the chars of every row are as they were; when \<open>k\<close> is outside
  that range, the insertion has appended the character, the deletion has done nothing,
  and the row is left with the character at its end (the other rows as they were).
\<close>

theorem C8_insert_delete_roundtrip:
  assumes "idx_ok (row E)" "p < length (row E)" "numrows E \<le> int (length (row E))"
  shows "map_option row_chars (insert_then_delete E p k c)
           = Some (if 0 \<le> k \<and> k \<le> int (length (chars (row E ! p)))
                   then row_chars E
                   else (row_chars E)[p := chars (row E ! p) @ [c]])"
proof (cases "0 \<le> k \<and> k \<le> int (length (chars (row E ! p)))")
  case True
  then have r: "0 \<le> k" "k \<le> int (length (chars (row E ! p)))" by simp_all
  have e: "(if 0 \<le> k \<and> k \<le> int (length (chars (row E ! p)))
            then row_chars E
            else (row_chars E)[p := chars (row E ! p) @ [c]]) = row_chars E"
    using True by (rule if_P)
  show ?thesis
    unfolding e by (rule insert_delete_in_range[OF assms r])
next
  case False
  then have r: "k < 0 \<or> int (length (chars (row E ! p))) < k" by auto
  have e: "(if 0 \<le> k \<and> k \<le> int (length (chars (row E ! p)))
            then row_chars E
            else (row_chars E)[p := chars (row E ! p) @ [c]])
           = (row_chars E)[p := chars (row E ! p) @ [c]]"
    using False by (rule if_not_P)
  show ?thesis
    unfolding e by (rule insert_delete_out_of_range[OF assms r])
qed

theorem C8_witness:
  "map_option row_chars (insert_then_delete (plain_doc [''ab'']) 0 1 (CHR ''x''))
     = Some (row_chars (plain_doc [''ab'']))
   \<and> map_option row_chars (insert_then_delete (plain_doc [''ab'']) 0 (- 1) (CHR ''x''))
     = Some [''abx'']"
  using C8_insert_delete_roundtrip[of "plain_doc [''ab'']" 0 1 "CHR ''x''"]
        C8_insert_delete_roundtrip[of "plain_doc [''ab'']" 0 "- 1" "CHR ''x''"]
  by (simp add: plain_doc_def plain_row_def initEditor_def idx_ok_def row_chars_def)

text \<open>The claim as stated, for a position out of range: inserting at 5 into \<open>ab\<close> appends,
  deleting at 5 does nothing, and the row is left as \<open>abx\<close>.\<close>

theorem C8_counterexample:
  "map_option row_chars (insert_then_delete (plain_doc [''ab'']) 0 5 (CHR ''x'')) = Some [''abx'']
   \<and> row_chars (plain_doc [''ab'']) = [''ab'']"
  by code_simp

subsection \<open>C9: loading a file and flattening the rows\<close>

text \<open>
  Claim C9. \<open>editorRowsToString\<close> gives, for every document, the chars of each row
  followed by one newline (so the buffer ends in a newline also when the last row is
  empty) and a length that is the sum of the row lengths plus the number of rows, which
  is the length of the buffer. \<open>editorOpen\<close> on a file that holds \<open>a CR LF b LF\<close> yields the
  two rows \<open>a\<close> and \<open>b\<close>, and \<open>editorSave\<close> afterwards hands \<open>a LF b LF\<close> and the length 4
  to \<open>write\<close>.
\<close>

theorem C9_load_and_flatten:
  "(wf_doc E \<longrightarrow>
       fst (editorRowsToString E) = concat (map (\<lambda>s. s @ [LF]) (row_chars E))
     \<and> (row_chars E \<noteq> [] \<longrightarrow> last (fst (editorRowsToString E)) = LF)
     \<and> snd (editorRowsToString E) = (\<Sum>s\<leftarrow>row_chars E. int (length s)) + numrows E
     \<and> snd (editorRowsToString E) = int (length (fst (editorRowsToString E))))
   \<and> (\<exists>E'. editorOpen (initEditor wr wc) fname (Some [CHR ''a'', CR, LF, CHR ''b'', LF]) = Some (Ret E')
         \<and> row_chars E' = [''a'', ''b'']
         \<and> numrows E' = 2
         \<and> (open_ok io \<and> ftruncate_ok io \<and> write_ret io = 4 \<longrightarrow>
              (\<exists>E''. editorSave io E' keys
                        = Some (E'', Some ([CHR ''a'', LF, CHR ''b'', LF], 4), keys))))"
proof (intro conjI impI)
  assume w: "wf_doc E"
  show "fst (editorRowsToString E) = concat (map (\<lambda>s. s @ [LF]) (row_chars E))"
    by (simp add: editorRowsToString_eq[OF w])
  show "snd (editorRowsToString E) = (\<Sum>s\<leftarrow>row_chars E. int (length s)) + numrows E"
    by (simp add: editorRowsToString_eq[OF w])
  show "snd (editorRowsToString E) = int (length (fst (editorRowsToString E)))"
  proof -
    have "numrows E = int (length (row_chars E))" using w by (simp add: wf_doc_def row_chars_def)
    then show ?thesis
      by (simp only: editorRowsToString_eq[OF w] fst_conv snd_conv length_concat_lines)
  qed
  assume "row_chars E \<noteq> []"
  then show "last (fst (editorRowsToString E)) = LF"
    by (simp add: editorRowsToString_eq[OF w] last_concat_lines)
next
  define E0 where "E0 = (initEditor wr wc)\<lparr>filename := Some (cstr fname)\<rparr>"
  have w0: "wf_doc E0" by (simp add: E0_def initEditor_def wf_doc_def idx_ok_def)
  from editorSelectSyntaxHighlight_total[OF w0] obtain rows1 syn where
    s: "editorSelectSyntaxHighlight E0 = Some (E0\<lparr>row := rows1, syntax' := syn\<rparr>)" and
    t: "map erow_text rows1 = map erow_text (row E0)" by blast
  from t have r1: "rows1 = []" by (simp add: E0_def initEditor_def)
  define E1 where "E1 = E0\<lparr>row := rows1, syntax' := syn\<rparr>"
  have w1: "wf_doc E1" using w0 r1 by (simp add: E1_def wf_doc_def E0_def initEditor_def)
  from open_loop_total[OF w1, of "[[CHR ''a'', CR, LF], [CHR ''b'', LF]]"] obtain rows2 where
    o: "open_loop E1 [[CHR ''a'', CR, LF], [CHR ''b'', LF]]
          = Some (E1\<lparr>row := rows2, numrows := numrows E1 + 2, dirty := dirty E1 + 2\<rparr>)" and
    ok2: "idx_ok rows2" and len2: "length rows2 = length (row E1) + 2" and
    c2: "map chars rows2 = row_chars E1 @ map strip_eol [[CHR ''a'', CR, LF], [CHR ''b'', LF]]"
    by auto
  define E2 where "E2 = E1\<lparr>row := rows2, numrows := numrows E1 + 2, dirty := 0\<rparr>"
  have op: "editorOpen (initEditor wr wc) fname (Some [CHR ''a'', CR, LF, CHR ''b'', LF]) = Some (Ret E2)"
    unfolding editorOpen_def E0_def[symmetric]
    using s o by (simp add: E1_def[symmetric] E2_def getlines_example del: getlines.simps open_loop.simps)
  have rc: "row_chars E2 = [''a'', ''b'']"
    using c2 r1 by (simp add: E2_def row_chars_def E1_def strip_eol_example)
  have n2: "numrows E2 = 2" by (simp add: E2_def E1_def E0_def initEditor_def)
  have w2: "wf_doc E2" using ok2 len2 r1 by (simp add: wf_doc_def E2_def E1_def E0_def initEditor_def)
  have fn: "filename E2 = Some (cstr fname)" by (simp add: E2_def E1_def E0_def)
  have rs: "editorRowsToString E2 = ([CHR ''a'', LF, CHR ''b'', LF], 4)"
    by (simp add: editorRowsToString_eq[OF w2] rc n2)
  have sv: "open_ok io \<and> ftruncate_ok io \<and> write_ret io = 4 \<longrightarrow>
              (\<exists>E''. editorSave io E2 keys
                        = Some (E'', Some ([CHR ''a'', LF, CHR ''b'', LF], 4), keys))"
    by (simp add: editorSave_def fn rs)
  from op rc n2 sv
  show "\<exists>E'. editorOpen (initEditor wr wc) fname (Some [CHR ''a'', CR, LF, CHR ''b'', LF]) = Some (Ret E')
         \<and> row_chars E' = [''a'', ''b'']
         \<and> numrows E' = 2
         \<and> (open_ok io \<and> ftruncate_ok io \<and> write_ret io = 4 \<longrightarrow>
              (\<exists>E''. editorSave io E' keys
                        = Some (E'', Some ([CHR ''a'', LF, CHR ''b'', LF], 4), keys)))"
    by (intro exI[of _ E2]) simp
qed

theorem C9_witness:
  "fst (editorRowsToString (plain_doc [''x'', ''''])) = [CHR ''x'', LF, LF]
   \<and> last (fst (editorRowsToString (plain_doc [''x'', '''']))) = LF
   \<and> snd (editorRowsToString (plain_doc [''x'', ''''])) = 3
   \<and> (\<exists>E'. editorOpen (initEditor 24 80) ''t.c'' (Some [CHR ''a'', CR, LF, CHR ''b'', LF]) = Some (Ret E')
         \<and> row_chars E' = [''a'', ''b'']
         \<and> numrows E' = 2
         \<and> (\<exists>E''. editorSave \<lparr>open_ok = True, ftruncate_ok = True, write_ret = 4, strerror_errno = []\<rparr> E' []
                        = Some (E'', Some ([CHR ''a'', LF, CHR ''b'', LF], 4), [])))"
  using C9_load_and_flatten[of "plain_doc [''x'', '''']" 24 80 "''t.c''"
          "\<lparr>open_ok = True, ftruncate_ok = True, write_ret = 4, strerror_errno = []\<rparr>" "[]"]
  by (simp add: wf_doc_def plain_doc_def plain_row_def initEditor_def idx_ok_def row_chars_def)

subsection \<open>C6: the steps of a search\<close>

text \<open>
  Claim C6, as amended. On the document with the rows \<open>foo\<close>, \<open>bar foo\<close>, \<open>baz\<close> and the
  query \<open>foo\<close>: the first step (a typed character, no match before) lands on row 0, a
  forward step from there on row 1 (column 4), a further forward step wraps to row 0, and
  a backward step from row 1 lands on row 0. In general, for a key other than Enter and
  Escape, a step of \<open>editorFindCallback\<close> visits the rows in the order
  \<open>spec_visit_order\<close>: it starts next to the last match, at row 0 when there is none,
  goes on one row at a time in the direction, cyclically, and meets every row once; the
  first row in that order in whose render \<open>strstr\<close> finds the query becomes the match,
  with the cursor on that row at the chars column of the match, and without such a row
  the cursor stays. \<open>strstr\<close> finds the query in a render when the query is a substring
  of the render read as a C string, that is, of its bytes before the first NUL byte.
\<close>

theorem C6_search_steps:
  "(map render (row foo_doc) = [''foo'', ''bar foo'', ''baz'']
    \<and> cy (snd (editorFindCallback ''foo'' 111 (find_static_init, foo_doc))) = 0
    \<and> last_match (fst (editorFindCallback ''foo'' 111 (find_static_init, foo_doc))) = 0
    \<and> cy (snd (editorFindCallback ''foo'' ARROW_RIGHT
                  (editorFindCallback ''foo'' 111 (find_static_init, foo_doc)))) = 1
    \<and> cx (snd (editorFindCallback ''foo'' ARROW_RIGHT
                  (editorFindCallback ''foo'' 111 (find_static_init, foo_doc)))) = 4
    \<and> cy (snd (editorFindCallback ''foo'' ARROW_RIGHT
                  (editorFindCallback ''foo'' ARROW_RIGHT
                    (editorFindCallback ''foo'' 111 (find_static_init, foo_doc))))) = 0
    \<and> cy (snd (editorFindCallback ''foo'' ARROW_LEFT
                  (editorFindCallback ''foo'' ARROW_RIGHT
                    (editorFindCallback ''foo'' 111 (find_static_init, foo_doc))))) = 0)
   \<and> (numrows E = int (length (row E)) \<and> 0 < numrows E
        \<and> - 1 \<le> last_match st \<and> last_match st < numrows E \<and> key \<noteq> 13 \<and> key \<noteq> 27
      \<longrightarrow> distinct (spec_visit_order (numrows E) (step_last st key) (step_dir st key))
        \<and> set (spec_visit_order (numrows E) (step_last st key) (step_dir st key)) \<subseteq> {0 ..< numrows E}
        \<and> length (spec_visit_order (numrows E) (step_last st key) (step_dir st key)) = nat (numrows E)
        \<and> spec_visit_order (numrows E) (step_last st key) (step_dir st key) ! 0
            = (if step_last st key = - 1 then 0
               else (step_last st key + step_dir st key) mod numrows E)
        \<and> (case spec_first_match (map render (row E)) query
                   (spec_visit_order (numrows E) (step_last st key) (step_dir st key)) of
              None \<Rightarrow> last_match (fst (editorFindCallback query key (st, E))) = step_last st key
                      \<and> cy (snd (editorFindCallback query key (st, E))) = cy E
                      \<and> cx (snd (editorFindCallback query key (st, E))) = cx E
            | Some (c, off) \<Rightarrow>
                last_match (fst (editorFindCallback query key (st, E))) = c
                \<and> cy (snd (editorFindCallback query key (st, E))) = c
                \<and> cx (snd (editorFindCallback query key (st, E)))
                    = editorRowRxToCx (row E ! nat c) (int off)))
   \<and> ((strstr hay query \<noteq> None) = (\<exists>pre post. cstr hay = pre @ cstr query @ post))"
proof (intro conjI impI)
  assume a: "numrows E = int (length (row E)) \<and> 0 < numrows E
        \<and> - 1 \<le> last_match st \<and> last_match st < numrows E \<and> key \<noteq> 13 \<and> key \<noteq> 27"
  then have n: "0 < numrows E" and l: "- 1 \<le> last_match st" "last_match st < numrows E"
    and e: "numrows E = int (length (row E))" and k: "key \<noteq> 13" "key \<noteq> 27" by blast+
  note sf = step_facts[OF l n, of key]
  note vp = visit_order_props[OF n sf(1), of "step_last st key"]
  show "distinct (spec_visit_order (numrows E) (step_last st key) (step_dir st key))"
    by (rule vp(1))
  show "set (spec_visit_order (numrows E) (step_last st key) (step_dir st key)) \<subseteq> {0 ..< numrows E}"
    by (rule vp(2))
  show "length (spec_visit_order (numrows E) (step_last st key) (step_dir st key)) = nat (numrows E)"
    by (rule vp(3))
  show "spec_visit_order (numrows E) (step_last st key) (step_dir st key) ! 0
            = (if step_last st key = - 1 then 0
               else (step_last st key + step_dir st key) mod numrows E)"
    using sf(4) n by (simp add: vp(4))
  show "case spec_first_match (map render (row E)) query
                   (spec_visit_order (numrows E) (step_last st key) (step_dir st key)) of
              None \<Rightarrow> last_match (fst (editorFindCallback query key (st, E))) = step_last st key
                      \<and> cy (snd (editorFindCallback query key (st, E))) = cy E
                      \<and> cx (snd (editorFindCallback query key (st, E))) = cx E
            | Some (c, off) \<Rightarrow>
                last_match (fst (editorFindCallback query key (st, E))) = c
                \<and> cy (snd (editorFindCallback query key (st, E))) = c
                \<and> cx (snd (editorFindCallback query key (st, E)))
                    = editorRowRxToCx (row E ! nat c) (int off)"
    by (rule find_general[OF e n l k])
next
  show "(strstr hay query \<noteq> None) = (\<exists>pre post. cstr hay = pre @ cstr query @ post)"
    by (rule strstr_Some_iff)
qed (simp_all add: foo_search)

theorem C6_witness:
  "spec_visit_order (numrows foo_doc) (step_last after_row1 ARROW_LEFT) (step_dir after_row1 ARROW_LEFT)
     = [0, 2, 1]
   \<and> last_match (fst (editorFindCallback ''foo'' ARROW_LEFT (after_row1, foo_doc))) = 0
   \<and> cy (snd (editorFindCallback ''foo'' ARROW_LEFT (after_row1, foo_doc))) = 0
   \<and> cx (snd (editorFindCallback ''foo'' ARROW_LEFT (after_row1, foo_doc))) = 0"
proof -
  have h: "numrows foo_doc = int (length (row foo_doc)) \<and> 0 < numrows foo_doc
        \<and> - 1 \<le> last_match after_row1 \<and> last_match after_row1 < numrows foo_doc
        \<and> ARROW_LEFT \<noteq> 13 \<and> ARROW_LEFT \<noteq> 27"
    by (simp add: foo_doc_def plain_doc_def after_row1_def ARROW_LEFT_def)
  have n: "numrows foo_doc = 3" by (simp add: foo_doc_def plain_doc_def)
  have s: "step_last after_row1 ARROW_LEFT = 1" "step_dir after_row1 ARROW_LEFT = - 1"
    by (simp_all add: step_last_def step_dir_def after_row1_def)
  have r: "map render (row foo_doc) = [''foo'', ''bar foo'', ''baz'']"
    by (simp add: foo_search)
  have c: "editorRowRxToCx (row foo_doc ! 0) 0 = 0"
    by code_simp
  from C6_search_steps[of foo_doc after_row1 ARROW_LEFT "''foo''" "''bar foo''"] h
  have "case spec_first_match (map render (row foo_doc)) ''foo''
                   (spec_visit_order (numrows foo_doc) (step_last after_row1 ARROW_LEFT)
                                     (step_dir after_row1 ARROW_LEFT)) of
              None \<Rightarrow> last_match (fst (editorFindCallback ''foo'' ARROW_LEFT (after_row1, foo_doc)))
                        = step_last after_row1 ARROW_LEFT
                      \<and> cy (snd (editorFindCallback ''foo'' ARROW_LEFT (after_row1, foo_doc))) = cy foo_doc
                      \<and> cx (snd (editorFindCallback ''foo'' ARROW_LEFT (after_row1, foo_doc))) = cx foo_doc
            | Some (c, off) \<Rightarrow>
                last_match (fst (editorFindCallback ''foo'' ARROW_LEFT (after_row1, foo_doc))) = c
                \<and> cy (snd (editorFindCallback ''foo'' ARROW_LEFT (after_row1, foo_doc))) = c
                \<and> cx (snd (editorFindCallback ''foo'' ARROW_LEFT (after_row1, foo_doc)))
                    = editorRowRxToCx (row foo_doc ! nat c) (int off)"
    by blast
  then have "last_match (fst (editorFindCallback ''foo'' ARROW_LEFT (after_row1, foo_doc))) = 0
                \<and> cy (snd (editorFindCallback ''foo'' ARROW_LEFT (after_row1, foo_doc))) = 0
                \<and> cx (snd (editorFindCallback ''foo'' ARROW_LEFT (after_row1, foo_doc)))
                    = editorRowRxToCx (row foo_doc ! nat 0) (int 0)"
    unfolding n s r foo_order foo_first by simp
  then show ?thesis
    unfolding n s foo_order using c by simp
qed

text \<open>The claim as stated, for a render with a NUL byte: the first row of \<open>nul_doc\<close> is
  \<open>a\<close>, NUL, \<open>foo\<close>, which contains the query, and the first step of the search passes
  it and lands on row 1.\<close>

theorem C6_counterexample:
  "render (row nul_doc ! 0) = [CHR ''a'', NUL] @ ''foo''
   \<and> strstr (render (row nul_doc ! 0)) ''foo'' = None
   \<and> last_match (fst (editorFindCallback ''foo'' 111 (find_static_init, nul_doc))) = 1
   \<and> cy (snd (editorFindCallback ''foo'' 111 (find_static_init, nul_doc))) = 1"
  by code_simp

subsection \<open>C7: a save that fails\<close>

text \<open>
  Claim C7. \<open>editorSave\<close> on a document with a file name always comes back, and on one
  without a file name it comes back whenever the prompt for the name does. Whenever it comes back, the chars of the rows are
  what they were. When \<open>open\<close>, \<open>ftruncate\<close> or \<open>write\<close> fails (\<open>write\<close> also by writing
  less than the whole buffer), \<open>dirty\<close> is left as it was and the status message is
  \<open>Can't save! I/O error:\<close> with the text of the error; \<open>dirty\<close> is set to 0 only when the
  whole buffer was written. (A prompt that is cancelled leaves \<open>dirty\<close> alone too.)
\<close>

theorem C7_save_failure_keeps_dirty:
  assumes "wf_doc E"
  shows "(filename E \<noteq> None
          \<or> editorPrompt (\<lambda>b. ''Save as: '' @ b @ '' (ESC to cancel)'') None [] ((), E) keys \<noteq> None
          \<longrightarrow> editorSave io E keys \<noteq> None)
     \<and> (\<forall>E' w keys'. editorSave io E keys = Some (E', w, keys') \<longrightarrow>
          row_chars E' = row_chars E
        \<and> (filename E' \<noteq> None \<and> open_ok io \<and> ftruncate_ok io
              \<and> write_ret io = snd (editorRowsToString E)
             \<longrightarrow> dirty E' = 0 \<and> w = Some (editorRowsToString E)
               \<and> statusmsg E' = take 79 (cstr (show_int (snd (editorRowsToString E)) @ '' bytes written to disk'')))
        \<and> (filename E' \<noteq> None \<and> \<not> (open_ok io \<and> ftruncate_ok io
              \<and> write_ret io = snd (editorRowsToString E))
             \<longrightarrow> dirty E' = dirty E
               \<and> statusmsg E' = take 79 (cstr (''Can't save! I/O error: '' @ strerror_errno io)))
        \<and> (filename E' = None
             \<longrightarrow> dirty E' = dirty E \<and> w = None \<and> statusmsg E' = ''Save aborted''))"
proof (cases "filename E")
  case (Some f)
  show ?thesis
    by (auto simp: editorSave_named[OF Some] editorSetStatusMessage_def row_chars_def Some)
next
  case None
  let ?fmt = "\<lambda>b. ''Save as: '' @ b @ '' (ESC to cancel)''"
  show ?thesis
  proof (cases "editorPrompt ?fmt None [] ((), E) keys")
    case pn: None
    with None show ?thesis by (simp add: editorSave_def)
  next
    case (Some r)
    then obtain answer E2 keys2 where
      pr: "editorPrompt ?fmt None [] ((), E) keys = Some (answer, ((), E2), keys2)"
      by (cases r) auto
    from editorPrompt_frame[OF pr] have
      fr: "row E2 = row E" "dirty E2 = dirty E" "numrows E2 = numrows E" by simp_all
    show ?thesis
    proof (cases answer)
      case an: None
      have "editorSave io E keys
              = Some (editorSetStatusMessage (E2\<lparr>filename := None\<rparr>) ''Save aborted'', None, keys2)"
        using None pr an by (simp add: editorSave_def)
      then show ?thesis
        using None fr by (auto simp: editorSetStatusMessage_def row_chars_def cstr_def NUL_def)
    next
      case (Some f)
      define E2' where "E2' = E2\<lparr>filename := Some f\<rparr>"
      have w2: "wf_doc E2'" using assms fr by (simp add: wf_doc_def E2'_def)
      from editorSelectSyntaxHighlight_total[OF w2] obtain rows' syn where
        sel: "editorSelectSyntaxHighlight E2' = Some (E2'\<lparr>row := rows', syntax' := syn\<rparr>)" and
        tx: "map erow_text rows' = map erow_text (row E2')" by blast
      define E3 where "E3 = E2'\<lparr>row := rows', syntax' := syn\<rparr>"
      have w3: "wf_doc E3"
        by (rule wf_doc_text[OF w2 tx]) (simp_all add: E3_def)
      have rc3: "row_chars E3 = row_chars E"
        using erow_text_maps(2)[OF tx] fr by (simp add: row_chars_def E3_def E2'_def)
      have rs3: "editorRowsToString E3 = editorRowsToString E"
        by (rule editorRowsToString_cong[OF assms w3 rc3])
      have fn3: "filename E3 = Some f" by (simp add: E3_def E2'_def)
      have d3: "dirty E3 = dirty E" using fr by (simp add: E3_def E2'_def)
      have "editorSave io E keys = editorSave io E3 keys2"
        using None pr Some sel
        by (simp add: editorSave_def editorSave_named[OF fn3] E3_def[symmetric] E2'_def[symmetric] fn3 split_def)
      then show ?thesis
        using None
        by (auto simp: editorSave_named[OF fn3] rs3 editorSetStatusMessage_def row_chars_def fn3 d3
                       rc3[unfolded row_chars_def])
    qed
  qed
qed

theorem C7_witness:
  "editorSave open_fails named_doc [] \<noteq> None
   \<and> (\<exists>E' w keys'. editorSave open_fails named_doc [] = Some (E', w, keys')
         \<and> row_chars E' = row_chars named_doc
         \<and> dirty E' = 3
         \<and> statusmsg E' = ''Can't save! I/O error: Permission denied'')"
proof -
  have w: "wf_doc named_doc"
    by (simp add: named_doc_def plain_doc_def plain_row_def initEditor_def wf_doc_def idx_ok_def)
  have f: "filename named_doc \<noteq> None" by (simp add: named_doc_def)
  note t = C7_save_failure_keeps_dirty[OF w, where io = open_fails and keys = "[]"]
  from t f have "editorSave open_fails named_doc [] \<noteq> None" by blast
  then obtain E' w' k where s: "editorSave open_fails named_doc [] = Some (E', w', k)"
    by (cases "editorSave open_fails named_doc []") auto
  have fn: "filename named_doc = Some ''f.txt''" by (simp add: named_doc_def)
  have "\<not> open_ok open_fails" by (simp add: open_fails_def)
  with s editorSave_named[OF fn, of open_fails "[]"]
  have "E' = editorSetStatusMessage named_doc (''Can't save! I/O error: '' @ strerror_errno open_fails)"
    by simp
  then have f': "filename E' \<noteq> None"
    by (simp add: editorSetStatusMessage_def fn)
  have nok: "\<not> (open_ok open_fails \<and> ftruncate_ok open_fails
              \<and> write_ret open_fails = snd (editorRowsToString named_doc))"
    by (simp add: open_fails_def)
  from t s f' nok have "row_chars E' = row_chars named_doc" "dirty E' = dirty named_doc"
    "statusmsg E' = take 79 (cstr (''Can't save! I/O error: '' @ strerror_errno open_fails))"
    by blast+
  then have "row_chars E' = row_chars named_doc \<and> dirty E' = 3
         \<and> statusmsg E' = ''Can't save! I/O error: Permission denied''"
    by (simp add: named_doc_def open_fails_def cstr_def NUL_def)
  with s show ?thesis by auto
qed

subsection \<open>C2: the keyword that is marked\<close>

text \<open>
  Claim C2, as amended. Where the scan is at the keyword step of a row (no earlier section
  of the loop body takes the pass and \<open>prev_sep\<close> is set), the pass marks the FIRST entry,
  in the order of the descriptor's keyword list, that matches at the current position: no
  entry before it in the list matches; its text (the entry without the \<open>|\<close> tag) stands at
  the position and the byte after it (the NUL after the row's last byte included) is a
  separator; the span of the text gets the class of the entry's tag (\<open>HL_KEYWORD2\<close> with
  the tag, \<open>HL_KEYWORD1\<close> without), the other positions keep their class, the scan goes on
  after the span with \<open>prev_sep\<close> cleared. With no matching entry the pass is the plain
  advance. An entry matches exactly when its text stands at the position and is followed by
  a separator. When no keyword text holds a separator character, as in the C descriptor,
  all matching entries have one text, and the first is as long as the longest.
\<close>

theorem C2_first_keyword_in_list_order:
  assumes "at_keyword_step syn r s"
  shows "scan_body syn r s =
           (case find (kw_matches (r @ [NUL]) (sc_i s)) (keywords' syn) of
              None \<Rightarrow> scan_advance r s
            | Some kw \<Rightarrow>
                Continue (s\<lparr>sc_hl := memset_hl (sc_hl s) (sc_i s) (kw_class kw) (klen_of kw),
                            sc_i := sc_i s + klen_of kw, prev_sep := False\<rparr>))
     \<and> (\<forall>kw. find (kw_matches (r @ [NUL]) (sc_i s)) (keywords' syn) = Some kw \<longrightarrow>
          (\<exists>pre post. keywords' syn = pre @ kw # post
                     \<and> (\<forall>k \<in> set pre. \<not> kw_matches (r @ [NUL]) (sc_i s) k))
        \<and> text_at r (sc_i s) (kw_text kw)
        \<and> is_separator ((r @ [NUL]) ! (sc_i s + length (kw_text kw)))
        \<and> (length (sc_hl s) = length r \<longrightarrow>
             (\<forall>p < length r.
                memset_hl (sc_hl s) (sc_i s) (kw_class kw) (klen_of kw) ! p
                  = (if sc_i s \<le> p \<and> p < sc_i s + length (kw_text kw) then kw_class kw
                     else sc_hl s ! p))))
     \<and> (\<forall>kw \<in> set (keywords' syn).
          kw_matches (r @ [NUL]) (sc_i s) kw
            = (text_at r (sc_i s) (kw_text kw)
               \<and> is_separator ((r @ [NUL]) ! (sc_i s + length (kw_text kw)))))
     \<and> ((\<forall>k \<in> set (keywords' syn). \<forall>c \<in> set (kw_text k). \<not> is_separator c) \<longrightarrow>
          map_option kw_text (spec_longest_keyword (keywords' syn) (r @ [NUL]) (sc_i s))
            = map_option kw_text (find (kw_matches (r @ [NUL]) (sc_i s)) (keywords' syn)))"
proof -
  let ?i = "sc_i s" and ?buf = "r @ [NUL]" and ?kws = "keywords' syn"
  from assms have il: "?i \<le> length r" by (simp add: at_keyword_step_def)
  have a: "scan_body syn r s =
           (case find (kw_matches ?buf ?i) ?kws of
              None \<Rightarrow> scan_advance r s
            | Some kw \<Rightarrow>
                Continue (s\<lparr>sc_hl := memset_hl (sc_hl s) ?i (kw_class kw) (klen_of kw),
                            sc_i := ?i + klen_of kw, prev_sep := False\<rparr>))"
    by (rule scan_body_keyword_step[OF assms])
  have b: "\<forall>kw. find (kw_matches ?buf ?i) ?kws = Some kw \<longrightarrow>
          (\<exists>pre post. ?kws = pre @ kw # post \<and> (\<forall>k \<in> set pre. \<not> kw_matches ?buf ?i k))
        \<and> text_at r ?i (kw_text kw)
        \<and> is_separator (?buf ! (?i + length (kw_text kw)))
        \<and> (length (sc_hl s) = length r \<longrightarrow>
             (\<forall>p < length r.
                memset_hl (sc_hl s) ?i (kw_class kw) (klen_of kw) ! p
                  = (if ?i \<le> p \<and> p < ?i + length (kw_text kw) then kw_class kw
                     else sc_hl s ! p)))"
  proof (intro allI impI)
    fix kw assume f: "find (kw_matches ?buf ?i) ?kws = Some kw"
    from find_first[OF f] have 1: "\<exists>pre post. ?kws = pre @ kw # post
        \<and> (\<forall>k \<in> set pre. \<not> kw_matches ?buf ?i k)" and m: "kw_matches ?buf ?i kw"
      by blast+
    from m have 2: "text_at r ?i (kw_text kw)"
      and 3: "is_separator (?buf ! (?i + length (kw_text kw)))"
      by (simp_all only: kw_matches_iff[OF il] length_kw_text)
    have 4: "length (sc_hl s) = length r \<longrightarrow>
             (\<forall>p < length r.
                memset_hl (sc_hl s) ?i (kw_class kw) (klen_of kw) ! p
                  = (if ?i \<le> p \<and> p < ?i + length (kw_text kw) then kw_class kw
                     else sc_hl s ! p))"
    proof (intro impI allI)
      fix p assume l: "length (sc_hl s) = length r" and p: "p < length r"
      have bb: "?i + klen_of kw \<le> length (sc_hl s)"
        using kw_matches_bound[OF il m] l by simp
      show "memset_hl (sc_hl s) ?i (kw_class kw) (klen_of kw) ! p
                  = (if ?i \<le> p \<and> p < ?i + length (kw_text kw) then kw_class kw
                     else sc_hl s ! p)"
        using nth_memset_hl[OF bb, of p] p l by (simp add: length_kw_text)
    qed
    from 1 2 3 4 show "(\<exists>pre post. ?kws = pre @ kw # post \<and> (\<forall>k \<in> set pre. \<not> kw_matches ?buf ?i k))
        \<and> text_at r ?i (kw_text kw)
        \<and> is_separator (?buf ! (?i + length (kw_text kw)))
        \<and> (length (sc_hl s) = length r \<longrightarrow>
             (\<forall>p < length r.
                memset_hl (sc_hl s) ?i (kw_class kw) (klen_of kw) ! p
                  = (if ?i \<le> p \<and> p < ?i + length (kw_text kw) then kw_class kw
                     else sc_hl s ! p)))"
      by blast
  qed
  have c: "\<forall>kw \<in> set ?kws. kw_matches ?buf ?i kw
            = (text_at r ?i (kw_text kw) \<and> is_separator (?buf ! (?i + length (kw_text kw))))"
    by (simp only: kw_matches_iff[OF il] length_kw_text) simp
  have d: "(\<forall>k \<in> set ?kws. \<forall>c \<in> set (kw_text k). \<not> is_separator c) \<longrightarrow>
          map_option kw_text (spec_longest_keyword ?kws ?buf ?i)
            = map_option kw_text (find (kw_matches ?buf ?i) ?kws)"
    using sepfree_longest_is_first[OF il] by blast
  from a b c d show ?thesis by (intro conjI)
qed

theorem C2_witness:
  "at_keyword_step C_syntax ''int x'' (scan_init ''int x'' False)
   \<and> find (kw_matches (''int x'' @ [NUL]) 0) (keywords' C_syntax) = Some ''int|''
   \<and> scan_body C_syntax ''int x'' (scan_init ''int x'' False)
       = Continue \<lparr>sc_i = 3,
                   sc_hl = [HL_KEYWORD2, HL_KEYWORD2, HL_KEYWORD2, HL_NORMAL, HL_NORMAL],
                   prev_sep = False, in_string = NUL, in_comment = False\<rparr>
   \<and> text_at ''int x'' 0 (kw_text ''int|'') \<and> kw_text ''int|'' = ''int''
   \<and> map_option kw_text (spec_longest_keyword (keywords' C_syntax) (''int x'' @ [NUL]) 0)
       = Some ''int''"
proof -
  have h: "at_keyword_step C_syntax ''int x'' (scan_init ''int x'' False)"
    by code_simp
  have f: "find (kw_matches (''int x'' @ [NUL]) (sc_i (scan_init ''int x'' False)))
             (keywords' C_syntax) = Some ''int|''"
    by code_simp
  have sf: "\<forall>k \<in> set (keywords' C_syntax). \<forall>c \<in> set (kw_text k). \<not> is_separator c"
    by code_simp
  have i0: "sc_i (scan_init ''int x'' False) = 0" by (simp add: scan_init_def)
  note t = C2_first_keyword_in_list_order[OF h]
  from t f have b: "scan_body C_syntax ''int x'' (scan_init ''int x'' False)
       = Continue ((scan_init ''int x'' False)
           \<lparr>sc_hl := memset_hl (sc_hl (scan_init ''int x'' False)) (sc_i (scan_init ''int x'' False))
                       (kw_class ''int|'') (klen_of ''int|''),
            sc_i := sc_i (scan_init ''int x'' False) + klen_of ''int|'', prev_sep := False\<rparr>)"
    by simp
  have e: "Continue ((scan_init ''int x'' False)
           \<lparr>sc_hl := memset_hl (sc_hl (scan_init ''int x'' False)) (sc_i (scan_init ''int x'' False))
                       (kw_class ''int|'') (klen_of ''int|''),
            sc_i := sc_i (scan_init ''int x'' False) + klen_of ''int|'', prev_sep := False\<rparr>)
        = Continue \<lparr>sc_i = 3,
                   sc_hl = [HL_KEYWORD2, HL_KEYWORD2, HL_KEYWORD2, HL_NORMAL, HL_NORMAL],
                   prev_sep = False, in_string = NUL, in_comment = False\<rparr>"
    by code_simp
  from t f have tx: "text_at ''int x'' (sc_i (scan_init ''int x'' False)) (kw_text ''int|'')"
    by blast
  from t sf f have lg: "map_option kw_text (spec_longest_keyword (keywords' C_syntax)
        (''int x'' @ [NUL]) (sc_i (scan_init ''int x'' False))) = Some (kw_text ''int|'')"
    by simp
  have kt: "kw_text ''int|'' = ''int''" by code_simp
  from h f b e tx lg kt show ?thesis by (simp only: i0)
qed

text \<open>The claim as stated: with the keywords \<open>end\<close> and \<open>end-if\<close>, in this order, both
  match at the start of the row \<open>end-if\<close>; the longest is \<open>end-if\<close>, and the scan marks
  the three bytes of \<open>end\<close> only.\<close>

theorem C2_counterexample:
  "at_keyword_step cobol_syntax ''end-if'' (scan_init ''end-if'' False)
   \<and> keywords' cobol_syntax = [''end'', ''end-if'']
   \<and> kw_matches (''end-if'' @ [NUL]) 0 ''end'' \<and> kw_matches (''end-if'' @ [NUL]) 0 ''end-if''
   \<and> spec_longest_keyword (keywords' cobol_syntax) (''end-if'' @ [NUL]) 0 = Some ''end-if''
   \<and> scan_body cobol_syntax ''end-if'' (scan_init ''end-if'' False)
       = Continue \<lparr>sc_i = 3,
                   sc_hl = [HL_KEYWORD1, HL_KEYWORD1, HL_KEYWORD1, HL_NORMAL, HL_NORMAL, HL_NORMAL],
                   prev_sep = False, in_string = NUL, in_comment = False\<rparr>
   \<and> sc_hl (scan_row cobol_syntax ''end-if'' False)
       = [HL_KEYWORD1, HL_KEYWORD1, HL_KEYWORD1, HL_NORMAL, HL_NORMAL, HL_NORMAL]"
  by code_simp

subsection \<open>C10: a keyword at the end of a row\<close>

text \<open>
  Claim C10, as amended. Let the render of a row end exactly with the text of a keyword of
  the descriptor, and let the scan of the row arrive at the first byte of that text at the
  keyword step (the scan is there outside a comment and a string, the byte does not
  continue a number, \<open>prev_sep\<close> is set). Then the keyword matches there: the position one
  past the end of the render holds the NUL terminator, NUL is a separator, so the end of
  the row counts as the separator after the match. Some entry of the keyword list is then
  marked: the first one that matches, whose span has its class in the final \<open>hl\<close>. When that
  first entry is the keyword itself, the scan ends there and the row is marked with the
  keyword's class from the keyword's first byte to its last byte; the same holds, with the
  class of the first matching entry, whenever no keyword text holds a separator character
  (as in the C descriptor), since the first matching entry has the keyword's text then.
\<close>

theorem C10_keyword_at_end_of_row:
  assumes "scan_reach syn r (scan_init r seed) s" and "at_keyword_step syn r s"
    and "kw \<in> set (keywords' syn)" and "drop (sc_i s) r = kw_text kw"
  shows "sc_i s + klen_of kw = length r
     \<and> (r @ [NUL]) ! length r = NUL \<and> is_separator NUL
     \<and> kw_matches (r @ [NUL]) (sc_i s) kw
     \<and> (\<exists>k. find (kw_matches (r @ [NUL]) (sc_i s)) (keywords' syn) = Some k
            \<and> (\<forall>p. sc_i s \<le> p \<and> p < sc_i s + klen_of k
                  \<longrightarrow> sc_hl (scan_row syn r seed) ! p = kw_class k))
     \<and> (find (kw_matches (r @ [NUL]) (sc_i s)) (keywords' syn) = Some kw \<longrightarrow>
          scan_row syn r seed
            = s\<lparr>sc_hl := memset_hl (sc_hl s) (sc_i s) (kw_class kw) (klen_of kw),
                sc_i := length r, prev_sep := False\<rparr>
        \<and> (\<forall>p. sc_i s \<le> p \<and> p < length r
              \<longrightarrow> sc_hl (scan_row syn r seed) ! p = kw_class kw))
     \<and> ((\<forall>k \<in> set (keywords' syn). \<forall>c \<in> set (kw_text k). \<not> is_separator c) \<longrightarrow>
          (\<exists>k. find (kw_matches (r @ [NUL]) (sc_i s)) (keywords' syn) = Some k
             \<and> kw_text k = kw_text kw
             \<and> (\<forall>p. sc_i s \<le> p \<and> p < length r
                   \<longrightarrow> sc_hl (scan_row syn r seed) ! p = kw_class k)))"
proof -
  let ?i = "sc_i s" and ?buf = "r @ [NUL]" and ?kws = "keywords' syn"
  note reach = assms(1) and ks = assms(2) and mem = assms(3) and dr = assms(4)
  from ks have lt: "?i < length r" by (simp add: at_keyword_step_def)
  then have il: "?i \<le> length r" by simp
  from text_at_suffix[OF dr il] have ta: "text_at r ?i (kw_text kw)"
    and en: "?i + klen_of kw = length r" by (simp_all add: length_kw_text)
  have nul: "?buf ! length r = NUL" by simp
  have m: "kw_matches ?buf ?i kw"
    by (simp only: kw_matches_iff[OF il] en nul) (simp add: ta is_separator_NUL)
  from m mem have "find (kw_matches ?buf ?i) ?kws \<noteq> None" by (auto simp: find_None_set)
  then obtain k where f: "find (kw_matches ?buf ?i) ?kws = Some k" by blast
  note res = keyword_step_result[OF reach ks]
  have c5: "\<exists>k. find (kw_matches ?buf ?i) ?kws = Some k
            \<and> (\<forall>p. ?i \<le> p \<and> p < ?i + klen_of k
                  \<longrightarrow> sc_hl (scan_row syn r seed) ! p = kw_class k)"
    using f res(3)[OF f] by blast
  have c6: "find (kw_matches ?buf ?i) ?kws = Some kw \<longrightarrow>
          scan_row syn r seed
            = s\<lparr>sc_hl := memset_hl (sc_hl s) ?i (kw_class kw) (klen_of kw),
                sc_i := length r, prev_sep := False\<rparr>
        \<and> (\<forall>p. ?i \<le> p \<and> p < length r
              \<longrightarrow> sc_hl (scan_row syn r seed) ! p = kw_class kw)"
  proof
    assume fk: "find (kw_matches ?buf ?i) ?kws = Some kw"
    let ?s' = "s\<lparr>sc_hl := memset_hl (sc_hl s) ?i (kw_class kw) (klen_of kw),
                  sc_i := length r, prev_sep := False\<rparr>"
    have "scan_row syn r seed = scan_loop syn r ?s'" using res(1)[OF fk] by (simp only: en)
    also have "\<dots> = ?s'" by (simp add: scan_loop.simps[of syn r ?s'])
    finally have 1: "scan_row syn r seed = ?s'" .
    have 2: "\<forall>p. ?i \<le> p \<and> p < length r \<longrightarrow> sc_hl (scan_row syn r seed) ! p = kw_class kw"
      using res(3)[OF fk] by (simp only: en)
    from 1 2 show "scan_row syn r seed = ?s'
        \<and> (\<forall>p. ?i \<le> p \<and> p < length r
              \<longrightarrow> sc_hl (scan_row syn r seed) ! p = kw_class kw)" by (rule conjI)
  qed
  have c7: "(\<forall>k \<in> set ?kws. \<forall>c \<in> set (kw_text k). \<not> is_separator c) \<longrightarrow>
          (\<exists>k. find (kw_matches ?buf ?i) ?kws = Some k
             \<and> kw_text k = kw_text kw
             \<and> (\<forall>p. ?i \<le> p \<and> p < length r
                   \<longrightarrow> sc_hl (scan_row syn r seed) ! p = kw_class k))"
  proof
    assume sf: "\<forall>k \<in> set ?kws. \<forall>c \<in> set (kw_text k). \<not> is_separator c"
    from find_matches[OF f] have km: "k \<in> set ?kws" "kw_matches ?buf ?i k" by simp_all
    have tx: "kw_text k = kw_text kw"
      using sepfree_same_text[OF il km(2) m] sf km(1) mem by blast
    then have "klen_of k = klen_of kw" using length_kw_text[of k] length_kw_text[of kw] by simp
    with res(3)[OF f] en
    have "\<forall>p. ?i \<le> p \<and> p < length r \<longrightarrow> sc_hl (scan_row syn r seed) ! p = kw_class k"
      by simp
    with f tx show "\<exists>k. find (kw_matches ?buf ?i) ?kws = Some k
             \<and> kw_text k = kw_text kw
             \<and> (\<forall>p. ?i \<le> p \<and> p < length r
                   \<longrightarrow> sc_hl (scan_row syn r seed) ! p = kw_class k)" by blast
  qed
  from en nul is_separator_NUL m c5 c6 c7 show ?thesis by (intro conjI)
qed

theorem C10_witness:
  "scan_reach C_syntax ''x = int'' (scan_init ''x = int'' False) at_int
   \<and> at_keyword_step C_syntax ''x = int'' at_int
   \<and> ''int|'' \<in> set (keywords' C_syntax)
   \<and> drop (sc_i at_int) ''x = int'' = kw_text ''int|''
   \<and> sc_hl (scan_row C_syntax ''x = int'' False)
       = [HL_NORMAL, HL_NORMAL, HL_NORMAL, HL_NORMAL, HL_KEYWORD2, HL_KEYWORD2, HL_KEYWORD2]"
proof -
  have st: "scan_steps C_syntax ''x = int'' (scan_init ''x = int'' False) 4 = Some at_int"
    by code_simp
  have h1: "scan_reach C_syntax ''x = int'' (scan_init ''x = int'' False) at_int"
    by (rule scan_steps_reach[OF st])
  have h2: "at_keyword_step C_syntax ''x = int'' at_int" by code_simp
  have h3: "''int|'' \<in> set (keywords' C_syntax)" by code_simp
  have h4: "drop (sc_i at_int) ''x = int'' = kw_text ''int|''" by code_simp
  have f: "find (kw_matches (''x = int'' @ [NUL]) (sc_i at_int)) (keywords' C_syntax) = Some ''int|''"
    by code_simp
  note t = C10_keyword_at_end_of_row[OF h1 h2 h3 h4]
  from t f have "scan_row C_syntax ''x = int'' False
            = at_int\<lparr>sc_hl := memset_hl (sc_hl at_int) (sc_i at_int) (kw_class ''int|'') (klen_of ''int|''),
                sc_i := length ''x = int'', prev_sep := False\<rparr>"
    by blast
  then have "sc_hl (scan_row C_syntax ''x = int'' False)
       = memset_hl (sc_hl at_int) (sc_i at_int) (kw_class ''int|'') (klen_of ''int|'')"
    by simp
  also have "\<dots> = [HL_NORMAL, HL_NORMAL, HL_NORMAL, HL_NORMAL, HL_KEYWORD2, HL_KEYWORD2, HL_KEYWORD2]"
    by code_simp
  finally show ?thesis using h1 h2 h3 h4 by simp
qed

text \<open>The claim as stated: the row \<open>//int\<close> ends with the keyword \<open>int\<close>, the byte before
  it is the separator \<open>/\<close>, and the whole row is a single-line comment: no byte of it is
  marked as a keyword.\<close>

theorem C10_counterexample:
  "''int|'' \<in> set (keywords' C_syntax) \<and> drop 2 ''//int'' = kw_text ''int|''
   \<and> is_separator (''//int'' ! 1)
   \<and> sc_hl (scan_row C_syntax ''//int'' False)
       = [HL_COMMENT, HL_COMMENT, HL_COMMENT, HL_COMMENT, HL_COMMENT]"
  by code_simp

subsection \<open>C4: what stands around a marked keyword\<close>




subsection \<open>C1: open comments and the cascade over the rows\<close>




end
